theory Spec2Isabelle
  imports Complex_Main
begin

section \<open>Python values\<close>

subsection \<open>Exceptions\<close>

datatype exn =
    ValueError string
  | RuntimeError string
  | IOError string
  | OSError string
  | KeyError string
  | TypeError string
  | ZeroDivisionError
  | UserError string

datatype 'a outcome = Returned 'a | Raised exn

subsection \<open>Integers as text\<close>

text \<open>
  \<^verbatim>\<open>f"{power_val}-{hr_val}"\<close>, \<^verbatim>\<open>f"{power_val}W"\<close> and \<^verbatim>\<open>f"{hr_val} bpm"\<close> format a Python
  \<^verbatim>\<open>int\<close> in decimal: a minus sign for a negative number, then the digits without
  leading zeros.
\<close>

definition digit_char :: "nat \<Rightarrow> char" where
  "digit_char d = ''0123456789'' ! d"

fun str_nat :: "nat \<Rightarrow> string" where
  "str_nat n = (if n < 10 then [digit_char n] else str_nat (n div 10) @ [digit_char (n mod 10)])"

declare str_nat.simps [simp del]

definition str_int :: "int \<Rightarrow> string" where
  "str_int i = (if i < 0 then CHR ''-'' # str_nat (nat (- i)) else str_nat (nat i))"

subsection \<open>Doubles\<close>

text \<open>
  A finite IEEE-754 double is a rational number, and the model keeps a float as the
  rational it denotes. \<^verbatim>\<open>int(x)\<close> truncates toward zero and is exact. The arithmetic
  operations \<^verbatim>\<open>+ - * /\<close> are correctly rounded: the exact result is rounded to the
  nearest double, ties to the even mantissa (\<open>fl\<close>). For a number of binary exponent
  \<open>e\<close> the doubles are the multiples of \<open>2 ^ (e - 52)\<close>; below \<open>2 ^ -1022\<close> the spacing
  stays \<open>2 ^ -1074\<close>. Infinities, NaN and the sign of zero are outside the model: no
  quantity of the program reaches \<open>2 ^ 1024\<close>.
\<close>

definition py_int :: "rat \<Rightarrow> int" where
  "py_int x = (if 0 \<le> x then \<lfloor>x\<rfloor> else \<lceil>x\<rceil>)"

fun bit_length :: "nat \<Rightarrow> nat" where
  "bit_length n = (if n = 0 then 0 else Suc (bit_length (n div 2)))"

declare bit_length.simps [simp del]

definition pow2 :: "int \<Rightarrow> rat" where
  "pow2 e = (if 0 \<le> e then 2 ^ nat e else 1 / 2 ^ nat (- e))"

definition ilog2 :: "rat \<Rightarrow> int" where
  "ilog2 x = (if 1 \<le> x then int (bit_length (nat \<lfloor>x\<rfloor>)) - 1
              else - int (bit_length (nat (\<lceil>1 / x\<rceil> - 1))))"

definition round_half_even :: "rat \<Rightarrow> int" where
  "round_half_even x =
     (let n = \<lfloor>x\<rfloor>; r = x - of_int n
      in if r < 1 / 2 then n else if 1 / 2 < r then n + 1 else if even n then n else n + 1)"

definition fl :: "rat \<Rightarrow> rat" where
  "fl x = (if x = 0 then 0
           else let e = max (ilog2 \<bar>x\<bar>) (- 1022); q = pow2 (e - 52)
                in sgn x * of_int (round_half_even (\<bar>x\<bar> / q)) * q)"

definition fadd :: "rat \<Rightarrow> rat \<Rightarrow> rat" where
  "fadd a b = fl (a + b)"

definition fsub :: "rat \<Rightarrow> rat \<Rightarrow> rat" where
  "fsub a b = fl (a - b)"

definition fmul :: "rat \<Rightarrow> rat \<Rightarrow> rat" where
  "fmul a b = fl (a * b)"

definition fdiv :: "rat \<Rightarrow> rat \<Rightarrow> rat" where
  "fdiv a b = fl (a / b)"

text \<open>\<^verbatim>\<open>float(n)\<close> of an \<^verbatim>\<open>int\<close>, and \<^verbatim>\<open>a / b\<close> of two \<^verbatim>\<open>int\<close>s (true division,
  correctly rounded).\<close>

definition float_of_int :: "int \<Rightarrow> rat" where
  "float_of_int n = fl (of_int n)"

definition int_truediv :: "int \<Rightarrow> int \<Rightarrow> rat" where
  "int_truediv a b = fl (of_int a / of_int b)"

text \<open>\<^verbatim>\<open>f"{x:.1f}"\<close>: the decimal expansion of the double, rounded to one place, ties
  to even; the sign is kept when the digits round to zero.\<close>

definition format_1f :: "rat \<Rightarrow> string" where
  "format_1f x =
     (let n = nat (round_half_even (\<bar>x\<bar> * 10))
      in (if x < 0 then ''-'' else '''') @ str_nat (n div 10) @ ''.'' @ [digit_char (n mod 10)])"

subsection \<open>datetime\<close>

text \<open>
  A \<^verbatim>\<open>datetime\<close> is its wall-clock reading in microseconds (on the scale where the
  epoch reads 0) and, when it is aware, its UTC offset in microseconds. A \<^verbatim>\<open>timedelta\<close> is
  a number of microseconds. The system's local zone is a parameter: the offset it gives
  a wall-clock reading (used by \<^verbatim>\<open>astimezone()\<close> on a naive value) and the offset it
  gives an instant (used by \<^verbatim>\<open>astimezone(None)\<close> on an aware value).
\<close>

datatype pydatetime = Naive int | Aware int int

record localzone =
  offset_of_wall :: "int \<Rightarrow> int"
  offset_of_utc :: "int \<Rightarrow> int"

text \<open>\<^verbatim>\<open>dt.astimezone(timezone.utc)\<close> and \<^verbatim>\<open>dt.astimezone()\<close>.\<close>

fun astimezone_utc :: "localzone \<Rightarrow> pydatetime \<Rightarrow> pydatetime" where
  "astimezone_utc tz (Aware w off) = Aware (w - off) 0"
| "astimezone_utc tz (Naive w) = Aware (w - offset_of_wall tz w) 0"

fun astimezone_local :: "localzone \<Rightarrow> pydatetime \<Rightarrow> pydatetime" where
  "astimezone_local tz (Naive w) = Aware w (offset_of_wall tz w)"
| "astimezone_local tz (Aware w off) = Aware (w - off + offset_of_utc tz (w - off)) (offset_of_utc tz (w - off))"

text \<open>The instant of an aware value, in microseconds of UTC.\<close>

fun utc_us :: "pydatetime \<Rightarrow> int" where
  "utc_us (Aware w off) = w - off"
| "utc_us (Naive w) = w"

text \<open>\<^verbatim>\<open>timedelta.total_seconds()\<close>: the microseconds divided by \<open>10 ^ 6\<close>, as a double.\<close>

definition total_seconds :: "int \<Rightarrow> rat" where
  "total_seconds td = int_truediv td 1000000"


section \<open>Images, frames and files\<close>

text \<open>
  Fonts and icons are loaded from files the repository does not contain, and the pixels
  are drawn by Pillow, NumPy and OpenCV. An image is therefore kept as what it shows and
  its size, and a frame as the flat background with the list of images composited onto
  it, each with its position, in order. Two frames built by the same compositing steps
  are the same array of pixels.
\<close>

datatype font = FONT_XL | FONT_L

datatype picture = TextPicture string font | LightningPicture | HeartPicture

record pil_image =
  picture :: picture
  width :: int
  height :: int

type_synonym raster = "(pil_image \<times> int \<times> int) list"

record trackpoint =
  time :: int
  power_w :: int
  hr :: int
  cadence :: int
  distance :: "rat option"
  speed :: "rat option"

text \<open>
  A trackpoint's \<open>time\<close> is an aware UTC \<^verbatim>\<open>datetime\<close> (lines 55 and 58 attach
  \<^verbatim>\<open>timezone.utc\<close>), kept as its microseconds; \<open>speed\<close> is \<open>None\<close> until the speed
  loop has set the key. A point of the sliced JSON file carries the same fields with the
  time as ISO-8601 text, kept as the \<^verbatim>\<open>datetime\<close> that \<^verbatim>\<open>fromisoformat\<close> reads
  back from it.
\<close>

record data_point =
  json_time :: pydatetime
  json_power :: int
  json_hr :: int
  json_cadence :: int
  json_distance :: "rat option"
  json_speed :: "rat option"

datatype file_content = JsonFile "data_point list" | VideoFile "raster list" | OtherFile

record world =
  files :: "string \<rightharpoonup> file_content"
  writable :: "string \<Rightarrow> bool"
  stdout :: "string list"

type_synonym progress_callback = "int \<Rightarrow> string \<Rightarrow> exn option"

section \<open>backend\_logic.py\<close>

subsection \<open>parse\_tcx\_file\<close>










text \<open>Lines 76 to 86, one pass of the loop body at index \<open>i\<close>.\<close>

definition speed_step :: "nat \<Rightarrow> trackpoint list \<Rightarrow> trackpoint list" where
  "speed_step i tps =
     (let cur = tps ! i; prev = tps ! (i - 1)
      in if 0 < i \<and> distance cur \<noteq> None \<and> distance prev \<noteq> None
         then let dist_delta = fsub (the (distance cur)) (the (distance prev));
                  time_delta = total_seconds (time cur - time prev)
              in if 0 < time_delta
                 then tps[i := cur\<lparr>speed := Some (fdiv dist_delta time_delta)\<rparr>]
                 else tps[i := cur\<lparr>speed := Some (case speed prev of None \<Rightarrow> 0 | Some v \<Rightarrow> v)\<rparr>]
         else tps[i := cur\<lparr>speed := Some 0\<rparr>])"

definition compute_speeds :: "trackpoint list \<Rightarrow> trackpoint list" where
  "compute_speeds tps = fold speed_step [0..<length tps] tps"



subsection \<open>slice\_data\_and\_save\_json\<close>

definition to_data_point :: "trackpoint \<Rightarrow> data_point" where
  "to_data_point tp =
     \<lparr>json_time = Aware (time tp) 0, json_power = power_w tp, json_hr = hr tp,
      json_cadence = cadence tp, json_distance = distance tp, json_speed = speed tp\<rparr>"

text \<open>Lines 104 to 112, for one endpoint.\<close>

definition window_utc :: "localzone \<Rightarrow> pydatetime \<Rightarrow> pydatetime" where
  "window_utc tz t =
     (case t of
        Naive w \<Rightarrow> astimezone_utc tz (astimezone_local tz t)
      | Aware w off \<Rightarrow> astimezone_utc tz t)"

text \<open>Lines 114 to 120.\<close>

fun slice_loop :: "pydatetime \<Rightarrow> pydatetime \<Rightarrow> trackpoint list \<Rightarrow> data_point list
    \<Rightarrow> data_point list" where
  "slice_loop start_time_utc end_time_utc [] sliced_data = sliced_data"
| "slice_loop start_time_utc end_time_utc (tp # rest) sliced_data =
     slice_loop start_time_utc end_time_utc rest
       (if utc_us start_time_utc \<le> time tp \<and> time tp \<le> utc_us end_time_utc
        then sliced_data @ [to_data_point tp] else sliced_data)"

definition slice_data :: "localzone \<Rightarrow> trackpoint list \<Rightarrow> pydatetime \<Rightarrow> pydatetime
    \<Rightarrow> data_point list" where
  "slice_data tz tps start_t end_t = slice_loop (window_utc tz start_t) (window_utc tz end_t) tps []"

definition slice_data_and_save_json :: "localzone \<Rightarrow> trackpoint list \<Rightarrow> pydatetime
    \<Rightarrow> pydatetime \<Rightarrow> string \<Rightarrow> world \<Rightarrow> unit outcome \<times> world" where
  "slice_data_and_save_json tz tps start_t end_t output_path w =
     (let sliced_data = slice_data tz tps start_t end_t
      in if \<not> writable w output_path then (Raised (OSError output_path), w)
         else (Returned (),
               w\<lparr>files := (files w)(output_path \<mapsto> JsonFile sliced_data),
                 stdout := stdout w @ [''Sliced data saved to '' @ output_path]\<rparr>))"


subsection \<open>Temporary files\<close>

text \<open>\<^verbatim>\<open>os.path.basename\<close>: what follows the last slash.\<close>

definition basename :: "string \<Rightarrow> string" where
  "basename path = rev (takeWhile (\<lambda>c. c \<noteq> CHR ''/'') (rev path))"

section \<open>gauge\_generator.py\<close>

subsection \<open>Master configuration (lines 58 to 76)\<close>

definition VIDEO_FPS :: nat where "VIDEO_FPS = 30"
definition FRAME_WIDTH :: int where "FRAME_WIDTH = 1280"
definition FRAME_HEIGHT :: int where "FRAME_HEIGHT = 720"
definition BODY_WEIGHT_KG :: rat where "BODY_WEIGHT_KG = 65"
definition TEXT_OUTLINE_WIDTH :: int where "TEXT_OUTLINE_WIDTH = 5"
definition LAYOUT_START_X :: int where "LAYOUT_START_X = 100"
definition LAYOUT_START_Y :: int where "LAYOUT_START_Y = 100"
definition LINE_SPACING :: int where "LINE_SPACING = 30"
definition ICON_SPACING :: int where "ICON_SPACING = 20"
definition ICON_TARGET_HEIGHT :: int where "ICON_TARGET_HEIGHT = 90"
definition LINE_HEIGHT_XL :: int where "LINE_HEIGHT_XL = 130"
definition LINE_HEIGHT_L :: int where "LINE_HEIGHT_L = 100"
definition HEART_ANIMATION_STRENGTH :: rat where "HEART_ANIMATION_STRENGTH = fl (15 / 100)"

subsection \<open>Helper functions (lines 15 to 48)\<close>

text \<open>
  \<open>overlay_image_alpha\<close> clips the overlay to the frame and returns without drawing when
  nothing of it is left; otherwise it blends the overlay into the frame at \<open>(x, y)\<close>.
\<close>

definition overlay_image_alpha :: "raster \<Rightarrow> pil_image \<Rightarrow> int \<Rightarrow> int \<Rightarrow> raster" where
  "overlay_image_alpha background overlay x y =
     (let h_overlay = height overlay; w_overlay = width overlay;
          y1 = max 0 y; y2 = min FRAME_HEIGHT (y + h_overlay);
          x1 = max 0 x; x2 = min FRAME_WIDTH (x + w_overlay)
      in if y2 \<le> y1 \<or> x2 \<le> x1 then background else background @ [(overlay, x, y)])"

text \<open>
  What the frames of a run are drawn with, all of it from outside the repository: the
  fonts' metrics (Pillow's \<^verbatim>\<open>textbbox\<close>), the two icons, resized, and NumPy's sine on
  doubles (\<^verbatim>\<open>np.sin\<close>), which has no bit-exact specification and is therefore a
  parameter: a function from doubles to doubles of which nothing is assumed.
\<close>

record assets =
  textbbox :: "font \<Rightarrow> string \<Rightarrow> int \<times> int \<times> int \<times> int"
  LIGHTNING_ICON :: pil_image
  HEART_ICON :: pil_image
  np_sin :: "rat \<Rightarrow> rat"

definition draw_text_with_outline_pil :: "assets \<Rightarrow> string \<Rightarrow> font \<Rightarrow> int \<Rightarrow> pil_image" where
  "draw_text_with_outline_pil A text fnt stroke_width =
     (case textbbox A fnt text of
        (b0, b1, b2, b3) \<Rightarrow>
          \<lparr>picture = TextPicture text fnt,
           width = b2 - b0 + stroke_width * 2,
           height = b3 - b1 + stroke_width * 2\<rparr>)"

subsection \<open>Font and icon loading (lines 79 to 91)\<close>

text \<open>The installation a run finds: the font and the two icon images as stored, and
  NumPy's sine.\<close>

record asset_files =
  font_bbox :: "font \<Rightarrow> string \<Rightarrow> int \<times> int \<times> int \<times> int"
  lightning_icon_orig :: pil_image
  heart_icon_orig :: pil_image
  numpy_sin :: "rat \<Rightarrow> rat"

definition resize_icon :: "pil_image \<Rightarrow> int \<Rightarrow> exn + pil_image" where
  "resize_icon icon new_height =
     (if height icon = 0 then Inl ZeroDivisionError
      else let aspect_ratio = int_truediv (width icon) (height icon);
               new_width = py_int (fmul (float_of_int new_height) aspect_ratio)
           in Inr (icon\<lparr>width := new_width, height := new_height\<rparr>))"

text \<open>\<open>None\<close>: an asset file is missing (\<^verbatim>\<open>FileNotFoundError\<close>).\<close>

definition load_assets :: "asset_files option \<Rightarrow> exn + assets" where
  "load_assets F =
     (case F of
        None \<Rightarrow> Inl (RuntimeError ''Asset file not found'')
      | Some fs \<Rightarrow>
          (case resize_icon (lightning_icon_orig fs) ICON_TARGET_HEIGHT of
             Inl e \<Rightarrow> Inl e
           | Inr l \<Rightarrow>
               (case resize_icon (heart_icon_orig fs) ICON_TARGET_HEIGHT of
                  Inl e \<Rightarrow> Inl e
                | Inr h \<Rightarrow> Inr \<lparr>textbbox = font_bbox fs, LIGHTNING_ICON = l, HEART_ICON = h,
                                 np_sin = numpy_sin fs\<rparr>)))"

subsection \<open>Data loading and interpolation (lines 94 to 108)\<close>

text \<open>
  \<^verbatim>\<open>np.linspace\<close> and \<^verbatim>\<open>np.interp\<close> are NumPy's; they are written here after NumPy's
  implementation. \<open>linspace start stop num\<close> has \<open>num\<close> entries; \<open>np_interp\<close> gives one
  value for each entry of \<open>x\<close>, clamped to the first and last sample.
\<close>

definition linspace :: "rat \<Rightarrow> rat \<Rightarrow> nat \<Rightarrow> rat list" where
  "linspace start stop num =
     (if num = 0 then []
      else if num = 1 then [start]
      else let step = fdiv (fsub stop start) (float_of_int (int num - 1))
           in map (\<lambda>i. if i = num - 1 then stop
                        else fadd (fmul (float_of_int (int i)) step) start) [0..<num])"

definition interp_at :: "rat list \<Rightarrow> rat list \<Rightarrow> rat \<Rightarrow> rat" where
  "interp_at xp fp x =
     (if last xp < x then last fp
      else if x < hd xp then hd fp
      else let j = length (takeWhile (\<lambda>v. v \<le> x) xp) - 1
           in if j = length xp - 1 then fp ! j
              else if xp ! j = x then fp ! j
              else let slope = fdiv (fsub (fp ! (j + 1)) (fp ! j)) (fsub (xp ! (j + 1)) (xp ! j))
                   in fadd (fmul slope (fsub x (xp ! j))) (fp ! j))"

definition np_interp :: "rat list \<Rightarrow> rat list \<Rightarrow> rat list \<Rightarrow> exn + rat list" where
  "np_interp x xp fp =
     (if xp = [] then Inl (ValueError ''array of sample points is empty'')
      else if length fp \<noteq> length xp then Inl (ValueError ''fp and xp are not of the same length.'')
      else Inr (map (interp_at xp fp) x))"

text \<open>\<^verbatim>\<open>end_dt - start_dt\<close>: a \<^verbatim>\<open>timedelta\<close>, or \<^verbatim>\<open>TypeError\<close> when one is naive and the
  other aware.\<close>

fun dt_sub :: "pydatetime \<Rightarrow> pydatetime \<Rightarrow> exn + int" where
  "dt_sub (Aware w1 o1) (Aware w2 o2) = Inr ((w1 - o1) - (w2 - o2))"
| "dt_sub (Naive w1) (Naive w2) = Inr (w1 - w2)"
| "dt_sub _ _ = Inl (TypeError ''can't subtract offset-naive and offset-aware datetimes'')"

text \<open>Line 103.\<close>

definition num_interpolated :: "rat \<Rightarrow> nat" where
  "num_interpolated duration_seconds =
     (if 0 < duration_seconds
      then nat (py_int (fmul duration_seconds (float_of_int (int VIDEO_FPS))))
      else 1)"

definition w_per_kg :: "rat \<Rightarrow> rat" where
  "w_per_kg p = (if 0 < BODY_WEIGHT_KG then fdiv p BODY_WEIGHT_KG else 0)"

text \<open>Lines 96 to 108: the frames, each with its power, heart rate and watts per
  kilogram.\<close>

definition interpolate :: "data_point list \<Rightarrow> exn + (rat \<times> rat \<times> rat) list" where
  "interpolate tps =
     (if tps = [] then Inl (ValueError ''Input JSON file is empty.'')
      else let power_l = map (\<lambda>tp. float_of_int (json_power tp)) tps;
               hr_l = map (\<lambda>tp. float_of_int (json_hr tp)) tps;
               num_points = length tps
           in case dt_sub (json_time (last tps)) (json_time (hd tps)) of
                Inl e \<Rightarrow> Inl e
              | Inr td \<Rightarrow>
                  (let duration_seconds = total_seconds td;
                       n = num_interpolated duration_seconds;
                       orig_x = linspace 0 (float_of_int (int num_points - 1)) num_points;
                       interp_x = linspace 0 (float_of_int (int num_points - 1)) n
                   in case np_interp interp_x orig_x power_l of
                        Inl e \<Rightarrow> Inl e
                      | Inr ip \<Rightarrow>
                          (case np_interp interp_x orig_x hr_l of
                             Inl e \<Rightarrow> Inl e
                           | Inr ih \<Rightarrow> Inr (zip ip (zip ih (map w_per_kg ip))))))"


text \<open>Line 116: \<^verbatim>\<open>total_frames = len(interpolated_data['power'])\<close>.\<close>

definition total_frames_of :: "data_point list \<Rightarrow> exn + nat" where
  "total_frames_of tps = (case interpolate tps of Inl e \<Rightarrow> Inl e | Inr frames \<Rightarrow> Inr (length frames))"

subsection \<open>Frame composition with caching (lines 111 to 191)\<close>

record video_writer =
  isOpened :: bool
  released :: bool
  written :: "raster list"

text \<open>
  The state of the loop: the two caches and the writer. \<open>rendered\<close> is a ghost log with
  one entry per frame the loop has composed, holding the frame's local variables: the
  index \<^verbatim>\<open>i\<close>, the interpolated values at \<^verbatim>\<open>i\<close>, \<^verbatim>\<open>cache_key\<close>, \<^verbatim>\<open>frame_cv\<close> as it
  stands at line 173 (before the heart is drawn), \<^verbatim>\<open>hr_val\<close>, \<^verbatim>\<open>hr_text_pil\<close>, and
  the heart with its position.
\<close>

record frame_log =
  log_index :: nat
  log_frame :: "rat \<times> rat \<times> rat"
  log_key :: string
  log_base :: raster
  log_hr_val :: int
  log_hr_text_pil :: pil_image
  log_heart :: "pil_image \<times> int \<times> int"

record render_state =
  text_cache :: "string \<rightharpoonup> pil_image"
  base_frame_cache :: "string \<rightharpoonup> raster"
  out :: video_writer
  rendered :: "frame_log list"

text \<open>Lines 125, 126 and 131:
  \<^verbatim>\<open>power_val = int(power[i]); hr_val = int(hr[i]); cache_key = f"{power_val}-{hr_val}"\<close>.\<close>

definition cache_key :: "int \<Rightarrow> int \<Rightarrow> string" where
  "cache_key power_val hr_val = str_int power_val @ ''-'' @ str_int hr_val"

definition frame_cache_key :: "rat \<Rightarrow> rat \<Rightarrow> string" where
  "frame_cache_key power_v hr_v = cache_key (py_int power_v) (py_int hr_v)"

definition hr_text :: "int \<Rightarrow> string" where
  "hr_text hr_val = str_int hr_val @ '' bpm''"

text \<open>\<^verbatim>\<open>if s not in text_cache: text_cache[s] = draw_text_with_outline_pil(s, ...)\<close>, then
  \<^verbatim>\<open>text_cache[s]\<close>.\<close>

definition cached_text :: "assets \<Rightarrow> (string \<rightharpoonup> pil_image) \<Rightarrow> string \<Rightarrow> font
    \<Rightarrow> (string \<rightharpoonup> pil_image) \<times> pil_image" where
  "cached_text A tc s fnt =
     (case tc s of
        Some img \<Rightarrow> (tc, img)
      | None \<Rightarrow>
          (let img = draw_text_with_outline_pil A s fnt TEXT_OUTLINE_WIDTH
           in (tc(s \<mapsto> img), img)))"

text \<open>Lines 138 to 168: the static layers, drawn from scratch.\<close>

definition render_static :: "assets \<Rightarrow> (string \<rightharpoonup> pil_image) \<Rightarrow> int \<Rightarrow> int \<Rightarrow> rat
    \<Rightarrow> raster \<times> pil_image \<times> (string \<rightharpoonup> pil_image)" where
  "render_static A tc0 power_val hr_val w_per_kg_val =
     (let frame0 = [];
          y_power = LAYOUT_START_Y;
          (tc1, power_text_pil) = cached_text A tc0 (str_int power_val @ ''W'') FONT_XL;
          frame1 = overlay_image_alpha frame0 power_text_pil LAYOUT_START_X
                     (y_power + (LINE_HEIGHT_XL - height power_text_pil) div 2);
          frame2 = overlay_image_alpha frame1 (LIGHTNING_ICON A)
                     (LAYOUT_START_X + width power_text_pil + ICON_SPACING)
                     (y_power + (LINE_HEIGHT_XL - height (LIGHTNING_ICON A)) div 2);
          y_wkg = y_power + (LINE_HEIGHT_XL + LINE_SPACING);
          (tc2, wkg_text_pil) = cached_text A tc1 (format_1f w_per_kg_val @ '' W/kg'') FONT_L;
          frame3 = overlay_image_alpha frame2 wkg_text_pil LAYOUT_START_X
                     (y_wkg + (LINE_HEIGHT_L - height wkg_text_pil) div 2);
          y_hr = y_wkg + (LINE_HEIGHT_L + LINE_SPACING);
          (tc3, hr_text_pil) = cached_text A tc2 (hr_text hr_val) FONT_L;
          frame4 = overlay_image_alpha frame3 hr_text_pil LAYOUT_START_X
                     (y_hr + (LINE_HEIGHT_L - height hr_text_pil) div 2)
      in (frame4, hr_text_pil, tc3))"

text \<open>Lines 131 to 171: the base frame of a frame, from the cache or drawn and stored;
  the lookup of line 135 raises \<^verbatim>\<open>KeyError\<close> when the text is not cached.\<close>

definition base_frame :: "assets \<Rightarrow> render_state \<Rightarrow> int \<Rightarrow> int \<Rightarrow> rat
    \<Rightarrow> exn + raster \<times> pil_image \<times> render_state" where
  "base_frame A st power_val hr_val w_per_kg_val =
     (let key = cache_key power_val hr_val
      in case base_frame_cache st key of
           Some cached \<Rightarrow>
             (case text_cache st (hr_text hr_val) of
                None \<Rightarrow> Inl (KeyError (hr_text hr_val))
              | Some hr_text_pil \<Rightarrow> Inr (cached, hr_text_pil, st))
         | None \<Rightarrow>
             (case render_static A (text_cache st) power_val hr_val w_per_kg_val of
                (frame_cv, hr_text_pil, tc) \<Rightarrow>
                  Inr (frame_cv, hr_text_pil,
                       st\<lparr>text_cache := tc,
                          base_frame_cache := (base_frame_cache st)(key \<mapsto> frame_cv)\<rparr>)))"

text \<open>
  Lines 175 to 177, in doubles, operation by operation:
  \<^verbatim>\<open>time_s = i / VIDEO_FPS\<close>, \<^verbatim>\<open>beat_freq_hz = hr_val / 60.0\<close> and
  \<^verbatim>\<open>1.0 + HEART_ANIMATION_STRENGTH * (np.sin(2 * np.pi * beat_freq_hz * time_s) * 0.5 + 0.5)\<close>,
  the product under the sine taken from left to right. \<open>NP_PI\<close> is \<^verbatim>\<open>np.pi\<close>, the
  double nearest to the number pi.
\<close>

definition NP_PI :: rat where
  "NP_PI = 884279719003555 / 281474976710656"

definition scale_factor :: "assets \<Rightarrow> int \<Rightarrow> nat \<Rightarrow> rat" where
  "scale_factor A hr_val i =
     (let time_s = int_truediv (int i) (int VIDEO_FPS);
          beat_freq_hz = fdiv (float_of_int hr_val) 60;
          angle = fmul (fmul (fmul 2 NP_PI) beat_freq_hz) time_s
      in fadd 1 (fmul HEART_ANIMATION_STRENGTH (fadd (fmul (np_sin A angle) (1 / 2)) (1 / 2))))"

text \<open>Lines 178 to 182: the resized heart,
  \<^verbatim>\<open>(int(w * scale_factor), int(h * scale_factor))\<close>, and where it goes.\<close>

definition beating_heart :: "assets \<Rightarrow> pil_image \<Rightarrow> int \<Rightarrow> nat \<Rightarrow> pil_image \<times> int \<times> int" where
  "beating_heart A hr_text_pil hr_val i =
     (let s = scale_factor A hr_val i;
          w = width (HEART_ICON A); h = height (HEART_ICON A);
          beating_heart_pil = (HEART_ICON A)\<lparr>width := py_int (fmul (float_of_int w) s),
                                            height := py_int (fmul (float_of_int h) s)\<rparr>;
          icon_x = LAYOUT_START_X + width hr_text_pil + ICON_SPACING;
          icon_y = (LAYOUT_START_Y + LINE_HEIGHT_XL + LINE_SPACING + LINE_HEIGHT_L + LINE_SPACING)
                   + (LINE_HEIGHT_L - height beating_heart_pil) div 2
      in (beating_heart_pil, icon_x, icon_y))"

text \<open>Lines 125 to 185: one frame, composed and written.\<close>

definition render_frame :: "assets \<Rightarrow> nat \<Rightarrow> rat \<times> rat \<times> rat \<Rightarrow> render_state
    \<Rightarrow> exn + render_state" where
  "render_frame A i fr st =
     (case fr of
        (power_v, hr_v, w_per_kg_val) \<Rightarrow>
          (let power_val = py_int power_v; hr_val = py_int hr_v
           in case base_frame A st power_val hr_val w_per_kg_val of
                Inl e \<Rightarrow> Inl e
              | Inr (base, hr_text_pil, st1) \<Rightarrow>
                  (case beating_heart A hr_text_pil hr_val i of
                     (beating_heart_pil, icon_x, icon_y) \<Rightarrow>
                       (let frame_cv = overlay_image_alpha base beating_heart_pil icon_x icon_y
                        in Inr (st1\<lparr>out := (out st1)\<lparr>written := written (out st1) @ [frame_cv]\<rparr>,
                                    rendered := rendered st1 @
                                      [\<lparr>log_index = i, log_frame = fr,
                                        log_key = cache_key power_val hr_val, log_base = base,
                                        log_hr_val = hr_val, log_hr_text_pil = hr_text_pil,
                                        log_heart = (beating_heart_pil, icon_x, icon_y)\<rparr>]\<rparr>)))))"

text \<open>Lines 187 to 189: the callback is called every \<open>2 * VIDEO_FPS\<close> frames and may
  raise.\<close>

definition report_progress :: "progress_callback option \<Rightarrow> nat \<Rightarrow> nat \<Rightarrow> exn option" where
  "report_progress cb i total_frames =
     (case cb of
        None \<Rightarrow> None
      | Some f \<Rightarrow>
          if (i + 1) mod (VIDEO_FPS * 2) = 0
          then f (py_int (fmul (int_truediv (int i + 1) (int total_frames)) 100))
                 (''Rendering frame '' @ str_nat (i + 1) @ ''/'' @ str_nat total_frames)
          else None)"

text \<open>The loop of line 124 from index \<open>i\<close> over the frames left; it stops at the first
  exception with the state reached.\<close>

fun render_loop :: "assets \<Rightarrow> progress_callback option \<Rightarrow> nat \<Rightarrow> nat \<Rightarrow> (rat \<times> rat \<times> rat) list
    \<Rightarrow> render_state \<Rightarrow> exn option \<times> render_state" where
  "render_loop A cb total_frames i [] st = (None, st)"
| "render_loop A cb total_frames i (fr # frs) st =
     (case render_frame A i fr st of
        Inl e \<Rightarrow> (Some e, st)
      | Inr st1 \<Rightarrow>
          (case report_progress cb i total_frames of
             Some e \<Rightarrow> (Some e, st1)
           | None \<Rightarrow> render_loop A cb total_frames (i + 1) frs st1))"

definition initial_state :: render_state where
  "initial_state =
     \<lparr>text_cache = Map.empty, base_frame_cache = Map.empty,
      out = \<lparr>isOpened = True, released = False, written = []\<rparr>, rendered = []\<rparr>"

text \<open>
  The whole function. The result is what the call returns or raises, the world after it,
  and the \<^verbatim>\<open>cv2.VideoWriter\<close> the call created, if it got that far, in the state the
  call leaves it. The output file holds the frames written to the writer.
\<close>

definition create_gauge_video :: "asset_files option \<Rightarrow> string \<Rightarrow> string
    \<Rightarrow> progress_callback option \<Rightarrow> world \<Rightarrow> unit outcome \<times> world \<times> video_writer option" where
  "create_gauge_video F json_path output_path cb w =
     (case load_assets F of
        Inl e \<Rightarrow> (Raised e, w, None)
      | Inr A \<Rightarrow>
          (case files w json_path of
             None \<Rightarrow> (Raised (OSError json_path), w, None)
           | Some (JsonFile tps) \<Rightarrow>
               (case interpolate tps of
                  Inl e \<Rightarrow> (Raised e, w, None)
                | Inr frames \<Rightarrow>
                    if \<not> writable w output_path
                    then (Raised (IOError ''Could not open video writer.''), w,
                          Some \<lparr>isOpened = False, released = False, written = []\<rparr>)
                    else (case render_loop A cb (length frames) 0 frames initial_state of
                            (Some e, st) \<Rightarrow>
                              (Raised e,
                               w\<lparr>files := (files w)(output_path \<mapsto> VideoFile (written (out st)))\<rparr>,
                               Some (out st))
                          | (None, st) \<Rightarrow>
                              (Returned (),
                               w\<lparr>files := (files w)(output_path \<mapsto> VideoFile (written (out st)))\<rparr>,
                               Some ((out st)\<lparr>released := True\<rparr>))))
           | Some _ \<Rightarrow> (Raised (ValueError ''JSONDecodeError''), w, None)))"

section \<open>backend\_logic.py: orchestrate\_video\_generation\<close>

text \<open>Lines 151 to 153.\<close>

definition video_progress_adapter :: "progress_callback \<Rightarrow> progress_callback" where
  "video_progress_adapter progress_callback p m =
     progress_callback (20 + py_int (fmul (int_truediv p 100) 75)) m"

text \<open>The body of the \<^verbatim>\<open>try\<close> (lines 144 to 164).\<close>

definition orchestrate_try :: "localzone \<Rightarrow> asset_files option \<Rightarrow> trackpoint list \<Rightarrow> pydatetime
    \<Rightarrow> pydatetime \<Rightarrow> string \<Rightarrow> string \<Rightarrow> progress_callback \<Rightarrow> world \<Rightarrow> string outcome \<times> world" where
  "orchestrate_try tz F tcx start_t end_t output_path temp_json_path progress_callback w =
     (case progress_callback 10 ''Slicing TCX data...'' of
        Some e \<Rightarrow> (Raised e, w)
      | None \<Rightarrow>
          (case slice_data_and_save_json tz tcx start_t end_t temp_json_path w of
             (Raised e, w1) \<Rightarrow> (Raised e, w1)
           | (Returned u, w1) \<Rightarrow>
               (case progress_callback 20 ''Generating gauge video frames...'' of
                  Some e \<Rightarrow> (Raised e, w1)
                | None \<Rightarrow>
                    (case create_gauge_video F temp_json_path output_path
                            (Some (video_progress_adapter progress_callback)) w1 of
                       (Raised e, w2, sink) \<Rightarrow> (Raised e, w2)
                     | (Returned u, w2, sink) \<Rightarrow>
                         (case progress_callback 100 ''Video generation complete.'' of
                            Some e \<Rightarrow> (Raised e, w2)
                          | None \<Rightarrow> (Returned output_path, w2))))))"

text \<open>The \<^verbatim>\<open>finally\<close> clause (lines 166 to 169) runs on every way out of the
  \<^verbatim>\<open>try\<close>.\<close>

definition orchestrate_video_generation :: "localzone \<Rightarrow> asset_files option \<Rightarrow> trackpoint list
    \<Rightarrow> pydatetime \<Rightarrow> pydatetime \<Rightarrow> string \<Rightarrow> progress_callback \<Rightarrow> world \<Rightarrow> string outcome \<times> world" where
  "orchestrate_video_generation tz F tcx start_t end_t output_path progress_callback w =
     (let temp_json_path = ''temp_sliced_data_'' @ basename output_path @ ''.json''
      in case orchestrate_try tz F tcx start_t end_t output_path temp_json_path progress_callback w of
           (result, w') \<Rightarrow>
             (result,
              if files w' temp_json_path \<noteq> None
              then w'\<lparr>files := (files w')(temp_json_path := None)\<rparr>
              else w'))"

section \<open>Notions used in the proofs\<close>

subsection \<open>Reading decimal text back\<close>

definition is_digit :: "char \<Rightarrow> bool" where
  "is_digit c = (c \<in> set ''0123456789'')"

fun digit_val :: "char \<Rightarrow> nat" where
  "digit_val c = length (takeWhile (\<lambda>d. d \<noteq> c) ''0123456789'')"

definition nat_of_digits :: "string \<Rightarrow> nat" where
  "nat_of_digits s = foldl (\<lambda>acc c. 10 * acc + digit_val c) 0 s"

definition int_of_text :: "string \<Rightarrow> int" where
  "int_of_text s = (case s of
       [] \<Rightarrow> 0
     | c # cs \<Rightarrow> (if c = CHR ''-'' then - int (nat_of_digits cs) else int (nat_of_digits s)))"

text \<open>Where a cache key is cut back into its two numbers: at the first minus sign that
  is not the sign of the first number.\<close>

definition split_key :: "string \<Rightarrow> string \<times> string" where
  "split_key s = (case s of
       [] \<Rightarrow> ([], [])
     | c # cs \<Rightarrow>
         (if c = CHR ''-''
          then (c # takeWhile is_digit cs, drop 1 (dropWhile is_digit cs))
          else (takeWhile is_digit s, drop 1 (dropWhile is_digit s))))"

subsection \<open>Invariants of the render loop\<close>

text \<open>A base frame is cached only together with its heart-rate text.\<close>

definition cache_inv :: "render_state \<Rightarrow> bool" where
  "cache_inv st =
     (\<forall>p h. cache_key p h \<in> dom (base_frame_cache st) \<longrightarrow> hr_text h \<in> dom (text_cache st))"

text \<open>Every frame composed so far used the base frame that the cache holds under its
  key and the heart-rate text that the text cache holds for its heart rate.\<close>

definition log_inv :: "render_state \<Rightarrow> bool" where
  "log_inv st =
     (\<forall>e \<in> set (rendered st).
        base_frame_cache st (log_key e) = Some (log_base e)
        \<and> text_cache st (hr_text (log_hr_val e)) = Some (log_hr_text_pil e)
        \<and> (\<exists>p. log_key e = cache_key p (log_hr_val e)))"

text \<open>What an entry of the log records of its frame.\<close>

definition entry_ok :: "assets \<Rightarrow> frame_log \<Rightarrow> bool" where
  "entry_ok A e =
     (case log_frame e of
        (power_v, hr_v, w) \<Rightarrow>
          log_key e = frame_cache_key power_v hr_v
          \<and> log_hr_val e = py_int hr_v
          \<and> log_heart e = beating_heart A (log_hr_text_pil e) (log_hr_val e) (log_index e))"

subsection \<open>Inputs for the examples\<close>

text \<open>No statement about an example depends on a value of the sine other than the one
  at 0; the stand-in below is the constant 0, right at 0.\<close>

definition demo_assets :: assets where
  "demo_assets =
     \<lparr>textbbox = (\<lambda>fnt s. (0, 0, 40 * int (length s), 80)),
      LIGHTNING_ICON = \<lparr>picture = LightningPicture, width = 60, height = 90\<rparr>,
      HEART_ICON = \<lparr>picture = HeartPicture, width = 90, height = 90\<rparr>,
      np_sin = (\<lambda>x. 0)\<rparr>"

definition demo_asset_files :: asset_files where
  "demo_asset_files =
     \<lparr>font_bbox = (\<lambda>fnt s. (0, 0, 40 * int (length s), 80)),
      lightning_icon_orig = \<lparr>picture = LightningPicture, width = 200, height = 300\<rparr>,
      heart_icon_orig = \<lparr>picture = HeartPicture, width = 256, height = 256\<rparr>,
      numpy_sin = (\<lambda>x. 0)\<rparr>"

text \<open>A point of a sliced file at \<open>t\<close> microseconds of UTC, and a world that holds one
  sliced file.\<close>

definition demo_point :: "int \<Rightarrow> int \<Rightarrow> int \<Rightarrow> data_point" where
  "demo_point t p h =
     \<lparr>json_time = Aware t 0, json_power = p, json_hr = h, json_cadence = 0,
      json_distance = None, json_speed = Some 0\<rparr>"

definition demo_world :: "data_point list \<Rightarrow> world" where
  "demo_world tps =
     \<lparr>files = [''sliced.json'' \<mapsto> JsonFile tps], writable = (\<lambda>path. True), stdout = []\<rparr>"

text \<open>A local zone one hour east of UTC, and a trackpoint at \<open>t\<close> microseconds.\<close>

definition demo_zone :: localzone where
  "demo_zone = \<lparr>offset_of_wall = (\<lambda>w. 3600000000), offset_of_utc = (\<lambda>u. 3600000000)\<rparr>"

definition demo_tp :: "int \<Rightarrow> rat option \<Rightarrow> trackpoint" where
  "demo_tp t d = \<lparr>time = t, power_w = 100, hr = 60, cadence = 80, distance = d, speed = None\<rparr>"

subsection \<open>The builder\<close>



text \<open>The value that the body of the speed loop assigns at index \<open>i\<close>.\<close>

definition assigned_speed :: "trackpoint list \<Rightarrow> nat \<Rightarrow> rat" where
  "assigned_speed tps i =
     (let cur = tps ! i; prev = tps ! (i - 1)
      in if 0 < i \<and> distance cur \<noteq> None \<and> distance prev \<noteq> None
         then let dist_delta = fsub (the (distance cur)) (the (distance prev));
                  time_delta = total_seconds (time cur - time prev)
              in if 0 < time_delta then fdiv dist_delta time_delta
                 else (case speed prev of None \<Rightarrow> 0 | Some v \<Rightarrow> v)
         else 0)"



section \<open>The cache key\<close>

lemma digit_char_is_digit: "d < 10 \<Longrightarrow> is_digit (digit_char d)"
  unfolding is_digit_def digit_char_def by (rule nth_mem) simp

lemma digit_val_digit_char: "d < 10 \<Longrightarrow> digit_val (digit_char d) = d"
proof -
  assume "d < 10"
  then have "d \<in> {0, 1, 2, 3, 4, 5, 6, 7, 8, 9}" by auto
  then show ?thesis
    by (auto simp: digit_char_def)
qed

lemma str_nat_digits: "\<forall>c \<in> set (str_nat n). is_digit c"
proof (induction n rule: str_nat.induct)
  case (1 n)
  show ?case
  proof (cases "n < 10")
    case True
    then show ?thesis by (subst str_nat.simps) (simp add: digit_char_is_digit)
  next
    case False
    have "n mod 10 < 10" by simp
    then have "is_digit (digit_char (n mod 10))" by (rule digit_char_is_digit)
    with False 1 show ?thesis by (subst str_nat.simps) auto
  qed
qed

lemma str_nat_nonempty: "str_nat n \<noteq> []"
  by (subst str_nat.simps) simp

lemma nat_of_digits_snoc: "nat_of_digits (s @ [c]) = 10 * nat_of_digits s + digit_val c"
  by (simp add: nat_of_digits_def)

lemma nat_of_digits_str_nat: "nat_of_digits (str_nat n) = n"
proof (induction n rule: str_nat.induct)
  case (1 n)
  show ?case
  proof (cases "n < 10")
    case True
    then show ?thesis
      by (subst str_nat.simps) (simp add: nat_of_digits_def digit_val_digit_char del: digit_val.simps)
  next
    case False
    have "nat_of_digits (str_nat n) = 10 * nat_of_digits (str_nat (n div 10)) + digit_val (digit_char (n mod 10))"
      using False by (subst str_nat.simps) (simp add: nat_of_digits_snoc)
    also have "\<dots> = 10 * (n div 10) + n mod 10"
      using False 1 by (simp add: digit_val_digit_char del: digit_val.simps)
    finally show ?thesis by simp
  qed
qed

lemma minus_not_digit: "\<not> is_digit CHR ''-''"
  by (simp add: is_digit_def)

lemma str_nat_hd_not_minus: "hd (str_nat n) \<noteq> CHR ''-''"
proof -
  have "hd (str_nat n) \<in> set (str_nat n)" using str_nat_nonempty by simp
  with str_nat_digits minus_not_digit show ?thesis by metis
qed

lemma int_of_text_str_int: "int_of_text (str_int i) = i"
proof (cases "i < 0")
  case True
  then show ?thesis by (simp add: int_of_text_def str_int_def nat_of_digits_str_nat)
next
  case False
  obtain c cs where s: "str_nat (nat i) = c # cs"
    using str_nat_nonempty by (cases "str_nat (nat i)") auto
  have "c \<noteq> CHR ''-''" using str_nat_hd_not_minus [of "nat i"] s by simp
  moreover have "nat_of_digits (c # cs) = nat i" using nat_of_digits_str_nat [of "nat i"] s by simp
  ultimately show ?thesis using False s by (simp add: int_of_text_def str_int_def)
qed

lemma str_int_inj: "str_int a = str_int b \<Longrightarrow> a = b"
  by (metis int_of_text_str_int)

lemma takeWhile_digits: "\<forall>c \<in> set ds. is_digit c \<Longrightarrow> takeWhile is_digit (ds @ CHR ''-'' # r) = ds"
  by (induction ds) (auto simp: minus_not_digit)

lemma dropWhile_digits: "\<forall>c \<in> set ds. is_digit c \<Longrightarrow> dropWhile is_digit (ds @ CHR ''-'' # r) = CHR ''-'' # r"
  by (induction ds) (auto simp: minus_not_digit)

lemma split_key_cache_key: "split_key (str_int p @ CHR ''-'' # r) = (str_int p, r)"
proof -
  let ?ds = "str_nat (nat \<bar>p\<bar>)"
  have tw: "takeWhile is_digit (?ds @ CHR ''-'' # r) = ?ds"
    by (rule takeWhile_digits) (rule str_nat_digits)
  have dw: "dropWhile is_digit (?ds @ CHR ''-'' # r) = CHR ''-'' # r"
    by (rule dropWhile_digits) (rule str_nat_digits)
  show ?thesis
  proof (cases "p < 0")
    case True
    then have "str_int p @ CHR ''-'' # r = CHR ''-'' # (?ds @ CHR ''-'' # r)"
      by (simp add: str_int_def)
    moreover have "split_key (CHR ''-'' # (?ds @ CHR ''-'' # r)) = (CHR ''-'' # ?ds, r)"
      unfolding split_key_def list.case tw dw by simp
    ultimately show ?thesis using True by (simp add: str_int_def)
  next
    case False
    obtain c cs where s: "?ds = c # cs"
      using str_nat_nonempty by (cases ?ds) auto
    have c: "c \<noteq> CHR ''-''" using str_nat_hd_not_minus [of "nat \<bar>p\<bar>"] s by simp
    have "split_key ((c # cs) @ CHR ''-'' # r) = (c # cs, r)"
      using c tw dw unfolding s split_key_def by simp
    then show ?thesis using False s by (simp add: str_int_def)
  qed
qed

lemma cache_key_inj: "cache_key p h = cache_key p' h' \<longleftrightarrow> p = p' \<and> h = h'"
proof
  assume eq: "cache_key p h = cache_key p' h'"
  have "split_key (cache_key p h) = (str_int p, str_int h)"
    and "split_key (cache_key p' h') = (str_int p', str_int h')"
    by (simp_all add: cache_key_def split_key_cache_key)
  with eq have "str_int p = str_int p'" and "str_int h = str_int h'" by simp_all
  then show "p = p' \<and> h = h'" by (simp add: str_int_inj)
qed simp


lemma py_int_magnitude: "\<bar>of_int (py_int x)\<bar> \<le> \<bar>x\<bar>"
proof (cases "0 \<le> x")
  case True
  then have "0 \<le> \<lfloor>x\<rfloor>" by simp
  with True show ?thesis by (simp add: py_int_def)
next
  case False
  then have "\<lceil>x\<rceil> \<le> 0" by (simp add: ceiling_le_zero)
  moreover have "x \<le> of_int \<lceil>x\<rceil>" by simp
  ultimately show ?thesis using False by (simp add: py_int_def)
qed

lemma py_int_near: "\<bar>x - of_int (py_int x)\<bar> < 1"
proof (cases "0 \<le> x")
  case True
  have "of_int \<lfloor>x\<rfloor> \<le> x" "x < of_int \<lfloor>x\<rfloor> + 1" by linarith+
  with True show ?thesis by (simp add: py_int_def)
next
  case False
  have "x \<le> of_int \<lceil>x\<rceil>" "of_int \<lceil>x\<rceil> < x + 1" by linarith+
  with False show ?thesis by (simp add: py_int_def)
qed

text \<open>
  Claim C2, as amended. The key of a frame is formed from its power and heart rate
  truncated toward zero (\<^verbatim>\<open>int(...)\<close>, lines 125 and 126), not rounded to nearest: two
  frames share a cache key if and only if their power values truncate to the same
  integer and their heart rates truncate to the same integer. The truncated value is
  never larger in magnitude than the value and is less than 1 away from it.
\<close>

theorem cache_key_truncates:
  "(frame_cache_key p1 h1 = frame_cache_key p2 h2 \<longleftrightarrow> py_int p1 = py_int p2 \<and> py_int h1 = py_int h2)
   \<and> \<bar>of_int (py_int p1)\<bar> \<le> \<bar>p1\<bar> \<and> \<bar>p1 - of_int (py_int p1)\<bar> < 1"
  using py_int_magnitude [of p1] py_int_near [of p1]
  by (simp add: frame_cache_key_def cache_key_inj)

text \<open>
  Claim C2 as stated fails: the frames with power 100.25 and 100.75 (heart rate 60) share
  the key \<open>100-60\<close>, although 100.25 rounds to 100 and 100.75 to 101.
\<close>

theorem cache_key_rounding_counterexample:
  "\<not> (frame_cache_key (401 / 4) 60 = frame_cache_key (403 / 4) 60
        \<longleftrightarrow> round (401 / 4 :: rat) = round (403 / 4 :: rat) \<and> round (60 :: rat) = round (60 :: rat))"
proof -
  have "py_int (401 / 4) = 100" and "py_int (403 / 4) = 100"
    by code_simp+
  then have "frame_cache_key (401 / 4) 60 = frame_cache_key (403 / 4) 60"
    by (simp add: frame_cache_key_def)
  moreover have "round (401 / 4 :: rat) = 100" and "round (403 / 4 :: rat) = 101"
    by code_simp+
  ultimately show ?thesis by simp
qed

section \<open>Rounding to a double\<close>

lemma pow2_powi: "pow2 e = 2 powi e"
  by (simp add: pow2_def power_int_def power_inverse [symmetric] inverse_eq_divide field_simps)

lemma pow2_pos: "0 < pow2 e"
  by (simp add: pow2_powi)

lemma pow2_add: "pow2 (a + b) = pow2 a * pow2 b"
  by (simp add: pow2_powi power_int_add)

lemma pow2_nat: "pow2 (int n) = 2 ^ n"
  by (simp add: pow2_def)

lemma pow2_neg_nat: "pow2 (- int n) = 1 / 2 ^ n"
  by (simp add: pow2_powi power_int_minus field_simps)

lemma pow2_mono: "a \<le> b \<Longrightarrow> pow2 a \<le> pow2 b"
  by (simp add: pow2_powi power_int_increasing)

lemma bit_length_bounds: "0 < n \<Longrightarrow> 2 ^ (bit_length n - 1) \<le> n \<and> n < 2 ^ bit_length n"
proof (induction n rule: bit_length.induct)
  case (1 n)
  show ?case
  proof (cases "n div 2 = 0")
    case True
    with 1(2) have "n = 1" by (simp add: div_eq_0_iff) 
    then show ?thesis by (simp add: bit_length.simps)
  next
    case False
    then have pos: "0 < n div 2" by simp
    from 1(1) [OF _ pos] 1(2) have IH: "2 ^ (bit_length (n div 2) - 1) \<le> n div 2"
      "n div 2 < 2 ^ bit_length (n div 2)" by simp_all
    have bl: "bit_length n = Suc (bit_length (n div 2))" using 1(2) by (subst bit_length.simps) simp
    have bp: "0 < bit_length (n div 2)" using pos by (subst bit_length.simps) simp
    then have "(2::nat) ^ (bit_length n - 1) = 2 * 2 ^ (bit_length (n div 2) - 1)"
      using bl by (cases "bit_length (n div 2)") simp_all
    with IH(1) have "2 ^ (bit_length n - 1) \<le> n" by linarith
    moreover have "n < 2 ^ bit_length n" using IH(2) bl by simp
    ultimately show ?thesis by simp
  qed
qed

lemma round_half_even_cases:
  "round_half_even x = \<lfloor>x\<rfloor> \<and> x - of_int \<lfloor>x\<rfloor> \<le> 1 / 2
   \<or> round_half_even x = \<lfloor>x\<rfloor> + 1 \<and> 1 / 2 \<le> x - of_int \<lfloor>x\<rfloor>"
  by (simp add: round_half_even_def Let_def)

lemma round_half_even_near: "\<bar>of_int (round_half_even x) - x\<bar> \<le> 1 / 2"
proof -
  have fl: "of_int \<lfloor>x\<rfloor> \<le> x" "x < of_int \<lfloor>x\<rfloor> + 1" by linarith+
  from round_half_even_cases [of x] show ?thesis
  proof
    assume "round_half_even x = \<lfloor>x\<rfloor> \<and> x - of_int \<lfloor>x\<rfloor> \<le> 1 / 2"
    with fl show ?thesis by simp
  next
    assume "round_half_even x = \<lfloor>x\<rfloor> + 1 \<and> 1 / 2 \<le> x - of_int \<lfloor>x\<rfloor>"
    with fl show ?thesis by simp
  qed
qed

lemma round_half_even_nonneg: "0 \<le> x \<Longrightarrow> 0 \<le> round_half_even x"
  by (auto simp: round_half_even_def Let_def)


lemma rat_pow2_le_nat: "2 ^ k \<le> n \<Longrightarrow> (2::rat) ^ k \<le> rat_of_nat n"
proof -
  assume "2 ^ k \<le> n"
  then have "rat_of_nat (2 ^ k) \<le> rat_of_nat n" by (rule iffD2 [OF of_nat_le_iff])
  then show ?thesis by simp
qed

lemma rat_nat_less_pow2: "n < 2 ^ k \<Longrightarrow> rat_of_nat n + 1 \<le> 2 ^ k"
proof -
  assume "n < 2 ^ k"
  then have "Suc n \<le> 2 ^ k" by simp
  then have "rat_of_nat (Suc n) \<le> rat_of_nat (2 ^ k)" by (rule iffD2 [OF of_nat_le_iff])
  then show ?thesis by simp
qed

lemma ilog2_bounds_ge1:
  assumes "1 \<le> x"
  shows "pow2 (ilog2 x) \<le> x \<and> x < pow2 (ilog2 x + 1)"
proof -
  let ?n = "nat \<lfloor>x\<rfloor>"
  let ?b = "bit_length ?n"
  have n1: "1 \<le> \<lfloor>x\<rfloor>" using assms by simp
  then have npos: "0 < ?n" by simp
  from bit_length_bounds [OF npos] have b: "2 ^ (?b - 1) \<le> ?n" "?n < 2 ^ ?b" by simp_all
  have bpos: "0 < ?b" using npos by (subst bit_length.simps) simp
  have e: "ilog2 x = int (?b - 1)" using assms bpos by (simp add: ilog2_def of_nat_diff)
  have n_eq: "rat_of_nat ?n = of_int \<lfloor>x\<rfloor>" using n1 by simp
  have nx: "rat_of_nat ?n \<le> x" unfolding n_eq by simp
  have xn: "x < rat_of_nat ?n + 1" unfolding n_eq by linarith
  from rat_pow2_le_nat [OF b(1)] nx have lo: "pow2 (ilog2 x) \<le> x" unfolding e pow2_nat by linarith
  from rat_nat_less_pow2 [OF b(2)] xn have "x < 2 ^ ?b" by linarith
  moreover have "ilog2 x + 1 = int ?b" using e bpos by simp
  ultimately have "x < pow2 (ilog2 x + 1)" by (simp only: pow2_nat)
  with lo show ?thesis by simp
qed


lemma ilog2_bounds_lt1:
  assumes "0 < x" and "x < 1"
  shows "pow2 (ilog2 x) \<le> x \<and> x < pow2 (ilog2 x + 1)"
proof -
  let ?m = "\<lceil>1 / x\<rceil>"
  let ?n = "nat (?m - 1)"
  let ?k = "bit_length ?n"
  have inv: "1 < 1 / x" using assms by simp
  then have "1 < ?m" by (simp add: less_ceiling_iff)
  then have m2: "2 \<le> ?m" by linarith
  then have npos: "0 < ?n" by linarith
  from bit_length_bounds [OF npos] have b: "2 ^ (?k - 1) \<le> ?n" "?n < 2 ^ ?k" by simp_all
  have kpos: "0 < ?k" using npos by (subst bit_length.simps) simp
  have e: "ilog2 x = - int ?k" using assms(2) by (simp add: ilog2_def)
  have "0 \<le> ?m - 1" using m2 by linarith
  then have "rat_of_nat ?n = of_int (?m - 1)" by (metis of_nat_nat)
  then have n_eq: "rat_of_nat ?n = of_int ?m - 1" by simp
  have up: "1 / x \<le> of_int ?m" by (rule le_of_int_ceiling)
  have dn: "of_int ?m - 1 < 1 / x" by linarith
  from rat_nat_less_pow2 [OF b(2)] n_eq up have A: "1 / x \<le> 2 ^ ?k" by linarith
  have "1 = (1 / x) * x" using assms(1) by simp
  also have "\<dots> \<le> 2 ^ ?k * x" using A assms(1) by (rule mult_right_mono [OF _ less_imp_le])
  finally have "1 \<le> 2 ^ ?k * x" .
  then have "1 / 2 ^ ?k \<le> x" by (simp add: divide_le_eq mult.commute)
  then have lo: "pow2 (ilog2 x) \<le> x" unfolding e pow2_neg_nat .
  from rat_pow2_le_nat [OF b(1)] n_eq dn have B: "2 ^ (?k - 1) < 1 / x" by linarith
  have "2 ^ (?k - 1) * x < (1 / x) * x" using B assms(1) by (rule mult_strict_right_mono)
  then have "2 ^ (?k - 1) * x < 1" using assms(1) by simp
  then have "x < 1 / 2 ^ (?k - 1)" by (simp add: less_divide_eq mult.commute)
  moreover have "ilog2 x + 1 = - int (?k - 1)" using e kpos by (simp add: of_nat_diff)
  ultimately have "x < pow2 (ilog2 x + 1)" by (simp only: pow2_neg_nat)
  with lo show ?thesis by simp
qed

lemma ilog2_bounds:
  assumes "0 < x"
  shows "pow2 (ilog2 x) \<le> x \<and> x < pow2 (ilog2 x + 1)"
  using ilog2_bounds_ge1 [of x] ilog2_bounds_lt1 [OF assms] by (cases "1 \<le> x") simp_all


lemma fl_error:
  assumes "pow2 (- 1022) \<le> x"
  shows "\<bar>fl x - x\<bar> \<le> x * pow2 (- 53)"
proof -
  have xpos: "0 < x" using assms pow2_pos [of "- 1022"] by linarith
  let ?e = "ilog2 x"
  let ?q = "pow2 (?e - 52)"
  from ilog2_bounds [OF xpos] have b: "pow2 ?e \<le> x" "x < pow2 (?e + 1)" by simp_all
  have e_ge: "- 1022 \<le> ?e"
  proof (rule ccontr)
    assume "\<not> - 1022 \<le> ?e"
    then have "?e + 1 \<le> - 1022" by simp
    then have "pow2 (?e + 1) \<le> pow2 (- 1022)" by (rule pow2_mono)
    with b(2) assms show False by linarith
  qed
  have qpos: "0 < ?q" by (rule pow2_pos)
  have flx: "fl x = of_int (round_half_even (x / ?q)) * ?q"
    using xpos e_ge by (simp add: fl_def Let_def max_def)
  have "fl x - x = (of_int (round_half_even (x / ?q)) - x / ?q) * ?q"
    using qpos by (simp add: flx field_simps)
  then have "\<bar>fl x - x\<bar> = \<bar>of_int (round_half_even (x / ?q)) - x / ?q\<bar> * ?q"
    using qpos by (simp add: abs_mult)
  also have "\<dots> \<le> (1 / 2) * ?q"
    using round_half_even_near [of "x / ?q"] qpos by (rule mult_right_mono [OF _ less_imp_le])
  also have "(1 / 2) * ?q = pow2 ?e * pow2 (- 53)"
  proof -
    have "?q = pow2 (?e + (- 52))" by simp
    also have "\<dots> = pow2 ?e * pow2 (- 52)" by (rule pow2_add)
    finally have "(1 / 2) * ?q = pow2 ?e * ((1 / 2) * pow2 (- 52))" by simp
    moreover have "(1 / 2) * pow2 (- 52) = pow2 (- 53)" by (simp add: pow2_def)
    ultimately show ?thesis by simp
  qed
  also have "\<dots> \<le> x * pow2 (- 53)"
    using b(1) pow2_pos [of "- 53"] by (rule mult_right_mono [OF _ less_imp_le])
  finally show ?thesis .
qed

lemma fl_nonpos: "x \<le> 0 \<Longrightarrow> fl x \<le> 0"
proof (cases "x = 0")
  case True
  then show ?thesis by (simp add: fl_def)
next
  case False
  assume "x \<le> 0"
  with False have neg: "x < 0" by simp
  let ?q = "pow2 (max (ilog2 \<bar>x\<bar>) (- 1022) - 52)"
  have "0 \<le> \<bar>x\<bar> / ?q" using pow2_pos [of "max (ilog2 \<bar>x\<bar>) (- 1022) - 52"] by simp
  then have "0 \<le> round_half_even (\<bar>x\<bar> / ?q)" by (rule round_half_even_nonneg)
  then have "0 \<le> rat_of_int (round_half_even (\<bar>x\<bar> / ?q)) * ?q"
    using pow2_pos [of "max (ilog2 \<bar>x\<bar>) (- 1022) - 52"] by simp
  moreover have "fl x = - (rat_of_int (round_half_even (\<bar>x\<bar> / ?q)) * ?q)"
    using neg False by (simp add: fl_def Let_def)
  ultimately show ?thesis by linarith
qed

lemma pow2_53: "pow2 (- 53) = 1 / 9007199254740992"
  by (simp add: pow2_def)

lemma pow2_1022_small: "pow2 (- 1022) \<le> 1 / 1000000000"
proof -
  have "pow2 (- 1022) \<le> pow2 (- 30)" by (rule pow2_mono) simp
  also have "pow2 (- 30) \<le> 1 / 1000000000" by (simp add: pow2_def)
  finally show ?thesis .
qed

lemma fl_30: "float_of_int (int VIDEO_FPS) = 30"
  by code_simp


lemma total_seconds_error:
  assumes "0 < us"
  shows "\<bar>total_seconds us - of_int us / 1000000\<bar> \<le> (of_int us / 1000000) / 9007199254740992"
proof -
  let ?x = "rat_of_int us / 1000000"
  have "1 \<le> rat_of_int us" using assms by simp
  then have "1 / 1000000 \<le> ?x" by simp
  with pow2_1022_small have "pow2 (- 1022) \<le> ?x" by linarith
  from fl_error [OF this] show ?thesis
    by (simp add: total_seconds_def int_truediv_def pow2_53)
qed

lemma total_seconds_pos_iff: "0 < total_seconds us \<longleftrightarrow> 0 < us"
proof (cases "0 < us")
  case True
  define x where "x = rat_of_int us / 1000000"
  have "0 < x" using True by (simp add: x_def)
  moreover have "\<bar>total_seconds us - x\<bar> \<le> x / 9007199254740992"
    using total_seconds_error [OF True] by (simp only: x_def)
  ultimately have "0 < total_seconds us" by linarith
  with True show ?thesis by simp
next
  case False
  then have "rat_of_int us / rat_of_int 1000000 \<le> 0" by simp
  then have "fl (rat_of_int us / rat_of_int 1000000) \<le> 0" by (rule fl_nonpos)
  with False show ?thesis by (simp add: total_seconds_def int_truediv_def)
qed

lemma frame_product_error:
  assumes "0 < us" and "us < 100000000000000"
  shows "\<bar>fmul (total_seconds us) (float_of_int (int VIDEO_FPS)) - of_int (3 * us) / 100000\<bar> < 1 / 100000"
proof -
  define x where "x = rat_of_int us / 1000000"
  define d where "d = total_seconds us"
  define y where "y = fl (d * 30)"
  have x_lo: "1 / 1000000 \<le> x" using assms(1) by (simp add: x_def)
  have "rat_of_int us < 100000000000000" using assms(2) by (metis of_int_less_iff of_int_numeral)
  then have x_hi: "x < 100000000" by (simp add: x_def)
  have d: "\<bar>d - x\<bar> \<le> x / 9007199254740992"
    using total_seconds_error [OF assms(1)] by (simp only: x_def d_def)
  have "pow2 (- 1022) \<le> d * 30" using d x_lo pow2_1022_small by linarith
  from fl_error [OF this] have y: "\<bar>y - d * 30\<bar> \<le> (d * 30) / 9007199254740992"
    by (simp only: pow2_53 y_def)
  have "\<bar>y - 30 * x\<bar> < 1 / 100000" using y d x_hi x_lo by linarith
  moreover have "30 * x = of_int (3 * us) / 100000" by (simp add: x_def)
  moreover have "fmul (total_seconds us) (float_of_int (int VIDEO_FPS)) = y"
    by (simp add: fmul_def fl_30 y_def d_def)
  ultimately show ?thesis by simp
qed


lemma num_interpolated_floor:
  assumes "0 < us" and "us < 100000000000000"
  shows "if 100000 dvd 3 * us
         then int (num_interpolated (total_seconds us)) = 3 * us div 100000
              \<or> int (num_interpolated (total_seconds us)) = 3 * us div 100000 - 1
         else int (num_interpolated (total_seconds us)) = 3 * us div 100000"
proof -
  define a where "a = 3 * us"
  define k where "k = a div 100000"
  define y where "y = fmul (total_seconds us) (float_of_int (int VIDEO_FPS))"
  have apos: "0 < a" using assms(1) by (simp add: a_def)
  then have k0: "0 \<le> k" by (simp add: k_def pos_imp_zdiv_nonneg_iff)
  have err: "\<bar>y - of_int a / 100000\<bar> < 1 / 100000"
    using frame_product_error [OF assms] by (simp only: y_def a_def)
  have dm: "a = 100000 * k + a mod 100000" by (simp add: k_def)
  have m: "0 \<le> a mod 100000" "a mod 100000 < 100000" by simp_all
  have q: "rat_of_int a / 100000 = of_int k + of_int (a mod 100000) / 100000"
  proof -
    have "rat_of_int a = of_int (100000 * k + a mod 100000)" using dm by simp
    then show ?thesis by simp
  qed
  have ni: "num_interpolated (total_seconds us) = nat (py_int y)"
    using assms(1) by (simp add: num_interpolated_def total_seconds_pos_iff y_def)
  have floor_k: "int (num_interpolated (total_seconds us)) = k" if "of_int k \<le> y" "y < of_int k + 1"
  proof -
    from that have "\<lfloor>y\<rfloor> = k" by (rule floor_unique)
    moreover have "0 \<le> rat_of_int k" using k0 by simp
    then have "0 \<le> y" using that(1) by linarith
    ultimately show ?thesis using k0 by (simp add: ni py_int_def)
  qed
  show ?thesis
  proof (cases "100000 dvd a")
    case True
    then have "a mod 100000 = 0" by simp
    with q have qk: "rat_of_int a / 100000 = of_int k" by simp
    have k3: "3 \<le> k"
    proof -
      from True dm \<open>a mod 100000 = 0\<close> have eq: "3 * us = 100000 * k" by (simp add: a_def)
      have kpos: "0 < k" using apos dm \<open>a mod 100000 = 0\<close> by simp
      have "(3 * us) mod 3 = 0" by simp
      with eq have m3: "(100000 * k) mod 3 = 0" by simp
      show ?thesis
      proof (rule ccontr)
        assume "\<not> 3 \<le> k"
        with kpos have "k = 1 \<or> k = 2" by linarith
        then show False using m3 by auto
      qed
    qed
    have "int (num_interpolated (total_seconds us)) = k \<or> int (num_interpolated (total_seconds us)) = k - 1"
    proof (cases "of_int k \<le> y")
      case True
      moreover have "y < of_int k + 1" using err qk by linarith
      ultimately show ?thesis using floor_k by simp
    next
      case False
      have km: "rat_of_int (k - 1) = of_int k - 1" by simp
      have lo: "of_int (k - 1) \<le> y" using err qk km by linarith
      have hi: "y < of_int (k - 1) + 1" using False km by linarith
      from lo hi have "\<lfloor>y\<rfloor> = k - 1" by (rule floor_unique)
      moreover have "0 \<le> rat_of_int (k - 1)" using k3 by simp
      then have "0 \<le> y" using lo by linarith
      ultimately show ?thesis using k3 by (simp add: ni py_int_def)
    qed
    with True show ?thesis by (simp add: a_def k_def)
  next
    case False
    then have "a mod 100000 \<noteq> 0" by (simp add: dvd_eq_mod_eq_0)
    with m have m1: "1 \<le> a mod 100000" "a mod 100000 \<le> 99999" by simp_all
    then have "rat_of_int 1 \<le> rat_of_int (a mod 100000)"
      "rat_of_int (a mod 100000) \<le> rat_of_int 99999"
      by (simp_all only: of_int_le_iff)
    then have "1 \<le> rat_of_int (a mod 100000)" "rat_of_int (a mod 100000) \<le> 99999"
      by simp_all
    with q have "of_int k + 1 / 100000 \<le> rat_of_int a / 100000"
      "rat_of_int a / 100000 \<le> of_int k + 99999 / 100000" by simp_all
    with err have "of_int k \<le> y" "y < of_int k + 1" by linarith+
    then have "int (num_interpolated (total_seconds us)) = k" by (rule floor_k)
    with False show ?thesis by (simp add: a_def k_def)
  qed
qed

lemma num_interpolated_pos:
  assumes "100000 \<le> 3 * us" and "us < 100000000000000"
  shows "1 \<le> num_interpolated (total_seconds us)"
proof -
  have us: "0 < us" using assms(1) by linarith
  define k where "k = 3 * us div 100000"
  have k1: "1 \<le> k" using assms(1) by (simp add: k_def pos_imp_zdiv_pos_iff)
  note f = num_interpolated_floor [OF us assms(2)]
  show ?thesis
  proof (cases "100000 dvd 3 * us")
    case False
    with f have "int (num_interpolated (total_seconds us)) = k" by (simp add: k_def)
    with k1 show ?thesis by linarith
  next
    case True
    then have eq: "3 * us = 100000 * k" by (simp add: k_def)
    have "(3 * us) mod 3 = 0" by simp
    with eq have m3: "(100000 * k) mod 3 = 0" by simp
    have "3 \<le> k"
    proof (rule ccontr)
      assume "\<not> 3 \<le> k"
      with k1 have "k = 1 \<or> k = 2" by linarith
      then show False using m3 by auto
    qed
    moreover from f True have "int (num_interpolated (total_seconds us)) = k
        \<or> int (num_interpolated (total_seconds us)) = k - 1" by (simp add: k_def)
    ultimately show ?thesis by linarith
  qed
qed

lemma round_half_even_of_int: "round_half_even (of_int m) = m"
  by (simp add: round_half_even_def Let_def)

lemma fl_of_int:
  assumes "0 \<le> n" and "n < 9007199254740992"
  shows "fl (of_int n) = of_int n"
proof (cases "n = 0")
  case True
  then show ?thesis by (simp add: fl_def)
next
  case False
  with assms(1) have n1: "1 \<le> n" by simp
  define x where "x = rat_of_int n"
  have x1: "1 \<le> x" using n1 by (simp add: x_def)
  then have xpos: "0 < x" by simp
  have xhi: "x < 9007199254740992" using assms(2) unfolding x_def by (metis of_int_less_iff of_int_numeral)
  define e where "e = ilog2 x"
  from ilog2_bounds [OF xpos] have b: "pow2 e \<le> x" "x < pow2 (e + 1)" by (simp_all add: e_def)
  have e0: "0 \<le> e"
  proof (rule ccontr)
    assume "\<not> 0 \<le> e"
    then have "e + 1 \<le> 0" by simp
    then have "pow2 (e + 1) \<le> pow2 0" by (rule pow2_mono)
    then have "pow2 (e + 1) \<le> 1" by (simp add: pow2_def)
    with b(2) x1 show False by linarith
  qed
  have e52: "e \<le> 52"
  proof (rule ccontr)
    assume "\<not> e \<le> 52"
    then have "53 \<le> e" by simp
    then have "pow2 53 \<le> pow2 e" by (rule pow2_mono)
    moreover have "pow2 53 = 9007199254740992" by (simp add: pow2_def)
    ultimately show False using b(1) xhi by linarith
  qed
  define k where "k = nat (52 - e)"
  have ek: "e - 52 = - int k" using e52 by (simp add: k_def)
  have q: "pow2 (e - 52) = 1 / 2 ^ k" unfolding ek by (rule pow2_neg_nat)
  have "x / pow2 (e - 52) = rat_of_int (n * 2 ^ k)" by (simp add: q x_def)
  then have r: "round_half_even (x / pow2 (e - 52)) = n * 2 ^ k"
    by (simp only: round_half_even_of_int)
  have "fl x = of_int (round_half_even (x / pow2 (e - 52))) * pow2 (e - 52)"
    using xpos e0 by (simp add: fl_def Let_def max_def e_def)
  also have "\<dots> = rat_of_int (n * 2 ^ k) * (1 / 2 ^ k)" unfolding r unfolding q ..
  also have "\<dots> = x" by (simp add: x_def)
  finally show ?thesis by (simp only: x_def)
qed

lemma num_interpolated_whole_seconds:
  assumes "0 < s" and "s < 100000000"
  shows "int (num_interpolated (total_seconds (s * 1000000))) = s * int VIDEO_FPS"
proof -
  have "rat_of_int (s * 1000000) / rat_of_int 1000000 = rat_of_int s" by simp
  then have "total_seconds (s * 1000000) = fl (rat_of_int s)"
    by (simp only: total_seconds_def int_truediv_def)
  also have "\<dots> = rat_of_int s" using assms by (intro fl_of_int) simp_all
  finally have ts: "total_seconds (s * 1000000) = rat_of_int s" .
  have "fmul (rat_of_int s) (float_of_int (int VIDEO_FPS)) = fl (rat_of_int (s * 30))"
    by (simp add: fmul_def fl_30)
  also have "\<dots> = rat_of_int (s * 30)" using assms by (intro fl_of_int) simp_all
  finally have p: "fmul (rat_of_int s) (float_of_int (int VIDEO_FPS)) = rat_of_int (s * 30)" .
  have pos: "0 < rat_of_int s" using assms(1) by simp
  have "py_int (rat_of_int (s * 30)) = s * 30"
    unfolding py_int_def using assms(1) by (simp only: floor_of_int ceiling_of_int if_cancel)
  then have "int (num_interpolated (rat_of_int s)) = s * 30"
    using pos assms(1) unfolding num_interpolated_def p by simp
  then show ?thesis by (simp add: ts VIDEO_FPS_def)
qed

section \<open>The render loop keeps its caches consistent\<close>

lemma cached_text_result:
  assumes "cached_text A tc s fnt = (tc', img)"
  shows "tc' s = Some img" and "tc \<subseteq>\<^sub>m tc'"
  using assms by (auto simp: cached_text_def Let_def map_le_def split: option.splits)

lemma render_static_result:
  assumes "render_static A tc p h w = (frame_cv, hr_img, tc')"
  shows "tc' (hr_text h) = Some hr_img" and "tc \<subseteq>\<^sub>m tc'"
proof -
  obtain tc1 i1 where c1: "cached_text A tc (str_int p @ ''W'') FONT_XL = (tc1, i1)"
    by (cases "cached_text A tc (str_int p @ ''W'') FONT_XL")
  obtain tc2 i2 where c2: "cached_text A tc1 (format_1f w @ '' W/kg'') FONT_L = (tc2, i2)"
    by (cases "cached_text A tc1 (format_1f w @ '' W/kg'') FONT_L")
  obtain tc3 i3 where c3: "cached_text A tc2 (hr_text h) FONT_L = (tc3, i3)"
    by (cases "cached_text A tc2 (hr_text h) FONT_L")
  from assms c1 c2 c3 have eq: "tc' = tc3" "hr_img = i3"
    by (simp_all add: render_static_def Let_def)
  from cached_text_result [OF c3] eq show "tc' (hr_text h) = Some hr_img" by simp
  have "tc \<subseteq>\<^sub>m tc1" "tc1 \<subseteq>\<^sub>m tc2" "tc2 \<subseteq>\<^sub>m tc3"
    using cached_text_result(2) [OF c1] cached_text_result(2) [OF c2] cached_text_result(2) [OF c3]
    by simp_all
  then show "tc \<subseteq>\<^sub>m tc'" using eq by (metis map_le_trans)
qed

lemma base_frame_ok:
  assumes "cache_inv st"
  shows "\<exists>base img st1. base_frame A st p h w = Inr (base, img, st1)"
proof (cases "base_frame_cache st (cache_key p h)")
  case None
  then show ?thesis
    by (cases "render_static A (text_cache st) p h w") (simp add: base_frame_def)
next
  case (Some cached)
  then have "cache_key p h \<in> dom (base_frame_cache st)" by auto
  with assms have "hr_text h \<in> dom (text_cache st)" by (auto simp: cache_inv_def)
  then obtain img where "text_cache st (hr_text h) = Some img" by auto
  with Some show ?thesis by (simp add: base_frame_def)
qed

lemma base_frame_result:
  assumes "base_frame A st p h w = Inr (base, img, st1)"
  shows "base_frame_cache st1 (cache_key p h) = Some base"
    and "text_cache st1 (hr_text h) = Some img"
    and "text_cache st \<subseteq>\<^sub>m text_cache st1"
    and "base_frame_cache st \<subseteq>\<^sub>m base_frame_cache st1"
    and "dom (base_frame_cache st1) = insert (cache_key p h) (dom (base_frame_cache st))"
    and "out st1 = out st" and "rendered st1 = rendered st"
proof -
  show "base_frame_cache st1 (cache_key p h) = Some base"
    using assms by (auto simp: base_frame_def Let_def split: option.splits prod.splits)
  show "text_cache st1 (hr_text h) = Some img"
    using assms render_static_result(1)
    by (auto simp: base_frame_def Let_def split: option.splits prod.splits)
  show "text_cache st \<subseteq>\<^sub>m text_cache st1"
    using assms render_static_result(2)
    by (auto simp: base_frame_def Let_def split: option.splits prod.splits)
  show "base_frame_cache st \<subseteq>\<^sub>m base_frame_cache st1"
    using assms by (auto simp: base_frame_def Let_def map_le_def split: option.splits prod.splits)
  show "dom (base_frame_cache st1) = insert (cache_key p h) (dom (base_frame_cache st))"
    using assms by (auto simp: base_frame_def Let_def split: option.splits prod.splits)
  show "out st1 = out st" "rendered st1 = rendered st"
    using assms by (auto simp: base_frame_def Let_def split: option.splits prod.splits)
qed


lemma render_frame_Inr:
  assumes "render_frame A i (pv, hv, w) st = Inr st1"
  obtains base img sb where
    "base_frame A st (py_int pv) (py_int hv) w = Inr (base, img, sb)"
    "st1 = sb\<lparr>out := (out sb)\<lparr>written := written (out sb) @
                  [overlay_image_alpha base (fst (beating_heart A img (py_int hv) i))
                     (fst (snd (beating_heart A img (py_int hv) i)))
                     (snd (snd (beating_heart A img (py_int hv) i)))]\<rparr>,
               rendered := rendered sb @
                 [\<lparr>log_index = i, log_frame = (pv, hv, w),
                   log_key = cache_key (py_int pv) (py_int hv), log_base = base,
                   log_hr_val = py_int hv, log_hr_text_pil = img,
                   log_heart = beating_heart A img (py_int hv) i\<rparr>]\<rparr>"
proof (cases "base_frame A st (py_int pv) (py_int hv) w")
  case (Inl e)
  with assms show ?thesis by (simp add: render_frame_def)
next
  case (Inr r)
  obtain base img sb where r: "r = (base, img, sb)" by (cases r)
  obtain b x y where bh: "beating_heart A img (py_int hv) i = (b, x, y)"
    by (cases "beating_heart A img (py_int hv) i")
  from assms Inr r bh show ?thesis
    by (intro that [of base img sb]) (simp_all add: render_frame_def Let_def)
qed

lemma render_frame_ok:
  assumes "cache_inv st"
  shows "\<exists>st1. render_frame A i fr st = Inr st1"
proof -
  obtain pv hv w where fr: "fr = (pv, hv, w)" by (cases fr)
  obtain base img sb where "base_frame A st (py_int pv) (py_int hv) w = Inr (base, img, sb)"
    using base_frame_ok [OF assms] by blast
  then show ?thesis
    unfolding fr by (cases "beating_heart A img (py_int hv) i") (simp add: render_frame_def Let_def)
qed

lemma render_frame_cache_inv:
  assumes "render_frame A i fr st = Inr st1" and "cache_inv st"
  shows "cache_inv st1"
proof -
  obtain pv hv w where fr: "fr = (pv, hv, w)" by (cases fr)
  from assms(1) [unfolded fr] obtain base img sb where
    bf: "base_frame A st (py_int pv) (py_int hv) w = Inr (base, img, sb)"
    and tc: "text_cache st1 = text_cache sb" and bc: "base_frame_cache st1 = base_frame_cache sb"
    by (rule render_frame_Inr) simp
  note r = base_frame_result [OF bf]
  show ?thesis
    unfolding cache_inv_def
  proof (intro allI impI)
    fix p h
    assume "cache_key p h \<in> dom (base_frame_cache st1)"
    then have "cache_key p h = cache_key (py_int pv) (py_int hv) \<or> cache_key p h \<in> dom (base_frame_cache st)"
      using r(5) bc by auto
    then show "hr_text h \<in> dom (text_cache st1)"
    proof
      assume "cache_key p h = cache_key (py_int pv) (py_int hv)"
      then have "h = py_int hv" by (simp add: cache_key_inj)
      with r(2) tc show ?thesis by auto
    next
      assume "cache_key p h \<in> dom (base_frame_cache st)"
      with assms(2) have "hr_text h \<in> dom (text_cache st)" by (simp add: cache_inv_def)
      with r(3) tc show ?thesis by (metis map_le_implies_dom_le subsetD)
    qed
  qed
qed

lemma render_frame_log_inv:
  assumes "render_frame A i fr st = Inr st1" and "log_inv st"
  shows "log_inv st1"
proof -
  obtain pv hv w where fr: "fr = (pv, hv, w)" by (cases fr)
  from assms(1) [unfolded fr] obtain base img sb where
    bf: "base_frame A st (py_int pv) (py_int hv) w = Inr (base, img, sb)"
    and st1: "st1 = sb\<lparr>out := (out sb)\<lparr>written := written (out sb) @
                  [overlay_image_alpha base (fst (beating_heart A img (py_int hv) i))
                     (fst (snd (beating_heart A img (py_int hv) i)))
                     (snd (snd (beating_heart A img (py_int hv) i)))]\<rparr>,
               rendered := rendered sb @
                 [\<lparr>log_index = i, log_frame = (pv, hv, w),
                   log_key = cache_key (py_int pv) (py_int hv), log_base = base,
                   log_hr_val = py_int hv, log_hr_text_pil = img,
                   log_heart = beating_heart A img (py_int hv) i\<rparr>]\<rparr>"
    by (rule render_frame_Inr)
  note r = base_frame_result [OF bf]
  have old: "base_frame_cache st1 (log_key e) = Some (log_base e)
        \<and> text_cache st1 (hr_text (log_hr_val e)) = Some (log_hr_text_pil e)
        \<and> (\<exists>p. log_key e = cache_key p (log_hr_val e))" if "e \<in> set (rendered st)" for e
  proof -
    from that assms(2) have e: "base_frame_cache st (log_key e) = Some (log_base e)"
      "text_cache st (hr_text (log_hr_val e)) = Some (log_hr_text_pil e)"
      "\<exists>p. log_key e = cache_key p (log_hr_val e)"
      by (auto simp: log_inv_def)
    have "base_frame_cache sb (log_key e) = Some (log_base e)"
      using e(1) r(4) by (metis domI map_le_def)
    moreover have "text_cache sb (hr_text (log_hr_val e)) = Some (log_hr_text_pil e)"
      using e(2) r(3) by (metis domI map_le_def)
    ultimately show ?thesis using e(3) st1 by simp
  qed
  show ?thesis
    unfolding log_inv_def
  proof
    fix e assume "e \<in> set (rendered st1)"
    then consider "e \<in> set (rendered st)"
      | "e = \<lparr>log_index = i, log_frame = (pv, hv, w),
                   log_key = cache_key (py_int pv) (py_int hv), log_base = base,
                   log_hr_val = py_int hv, log_hr_text_pil = img,
                   log_heart = beating_heart A img (py_int hv) i\<rparr>"
      using st1 r(7) by auto
    then show "base_frame_cache st1 (log_key e) = Some (log_base e)
        \<and> text_cache st1 (hr_text (log_hr_val e)) = Some (log_hr_text_pil e)
        \<and> (\<exists>p. log_key e = cache_key p (log_hr_val e))"
    proof cases
      case 1
      then show ?thesis by (rule old)
    next
      case 2
      then show ?thesis using r(1) r(2) st1 by auto
    qed
  qed
qed


lemma render_frame_appends:
  assumes "render_frame A i fr st = Inr st1"
  shows "\<exists>e. rendered st1 = rendered st @ [e] \<and> entry_ok A e \<and> log_index e = i \<and> log_frame e = fr"
    and "released (out st1) = released (out st)"
    and "isOpened (out st1) = isOpened (out st)"
    and "length (written (out st1)) = Suc (length (written (out st)))"
proof -
  obtain pv hv w where fr: "fr = (pv, hv, w)" by (cases fr)
  from assms [unfolded fr] obtain base img sb where
    bf: "base_frame A st (py_int pv) (py_int hv) w = Inr (base, img, sb)"
    and st1: "st1 = sb\<lparr>out := (out sb)\<lparr>written := written (out sb) @
                  [overlay_image_alpha base (fst (beating_heart A img (py_int hv) i))
                     (fst (snd (beating_heart A img (py_int hv) i)))
                     (snd (snd (beating_heart A img (py_int hv) i)))]\<rparr>,
               rendered := rendered sb @
                 [\<lparr>log_index = i, log_frame = (pv, hv, w),
                   log_key = cache_key (py_int pv) (py_int hv), log_base = base,
                   log_hr_val = py_int hv, log_hr_text_pil = img,
                   log_heart = beating_heart A img (py_int hv) i\<rparr>]\<rparr>"
    by (rule render_frame_Inr)
  note r = base_frame_result [OF bf]
  show "\<exists>e. rendered st1 = rendered st @ [e] \<and> entry_ok A e \<and> log_index e = i \<and> log_frame e = fr"
    using st1 r(7) fr by (simp add: entry_ok_def frame_cache_key_def)
  show "released (out st1) = released (out st)" "isOpened (out st1) = isOpened (out st)"
    "length (written (out st1)) = Suc (length (written (out st)))"
    using st1 r(6) by simp_all
qed

lemma render_loop_invs:
  assumes "render_loop A cb n_total i frs st = (r, st')" and "cache_inv st" and "log_inv st"
  shows "cache_inv st' \<and> log_inv st'
         \<and> released (out st') = released (out st) \<and> isOpened (out st') = isOpened (out st)
         \<and> (\<forall>e. r = Some e \<longrightarrow> (\<exists>f p m. cb = Some f \<and> f p m = Some e))"
  using assms
proof (induction frs arbitrary: i st)
  case Nil
  then show ?case by simp
next
  case (Cons fr frs)
  obtain st1 where st1: "render_frame A i fr st = Inr st1"
    using render_frame_ok [OF Cons.prems(2)] by blast
  have inv1: "cache_inv st1" "log_inv st1"
    using render_frame_cache_inv [OF st1 Cons.prems(2)] render_frame_log_inv [OF st1 Cons.prems(3)]
    by simp_all
  note app = render_frame_appends [OF st1]
  show ?case
  proof (cases "report_progress cb i n_total")
    case None
    with Cons.prems(1) st1 have "render_loop A cb n_total (i + 1) frs st1 = (r, st')" by simp
    from Cons.IH [OF this inv1] app(2,3) show ?thesis by simp
  next
    case (Some e)
    with Cons.prems(1) st1 have r: "r = Some e" "st' = st1" by simp_all
    from Some obtain f where "cb = Some f"
      and "f (py_int (fmul (int_truediv (int i + 1) (int n_total)) 100))
             (''Rendering frame '' @ str_nat (i + 1) @ ''/'' @ str_nat n_total) = Some e"
      by (auto simp: report_progress_def split: option.splits if_splits)
    then have "\<exists>f p m. cb = Some f \<and> f p m = Some e" by blast
    with r inv1 app(2,3) show ?thesis by simp
  qed
qed

lemma render_loop_log:
  assumes "render_loop A cb n_total i frs st = (r, st')" and "cache_inv st"
  shows "\<exists>new. rendered st' = rendered st @ new
           \<and> (\<forall>e \<in> set new. entry_ok A e)
           \<and> map log_index new = [i..<i + length new]
           \<and> map log_frame new = take (length new) frs
           \<and> (r = None \<longrightarrow> length new = length frs)
           \<and> length (written (out st')) = length (written (out st)) + length new"
  using assms
proof (induction frs arbitrary: i st)
  case Nil
  then show ?case by simp
next
  case (Cons fr frs)
  obtain st1 where st1: "render_frame A i fr st = Inr st1"
    using render_frame_ok [OF Cons.prems(2)] by blast
  have inv1: "cache_inv st1"
    using render_frame_cache_inv [OF st1 Cons.prems(2)] .
  from render_frame_appends [OF st1] obtain e where
    e: "rendered st1 = rendered st @ [e]" "entry_ok A e" "log_index e = i" "log_frame e = fr"
    and wr: "length (written (out st1)) = Suc (length (written (out st)))"
    by blast
  show ?case
  proof (cases "report_progress cb i n_total")
    case None
    with Cons.prems(1) st1 have "render_loop A cb n_total (i + 1) frs st1 = (r, st')" by simp
    from Cons.IH [OF this inv1] obtain new where
      new: "rendered st' = rendered st1 @ new" "\<forall>e \<in> set new. entry_ok A e"
        "map log_index new = [i + 1..<i + 1 + length new]"
        "map log_frame new = take (length new) frs"
        "r = None \<longrightarrow> length new = length frs"
        "length (written (out st')) = length (written (out st1)) + length new"
      by blast
    have "[i..<i + length (e # new)] = i # [i + 1..<i + 1 + length new]"
      by (simp add: upt_rec)
    then show ?thesis
      using new e wr by (intro exI [of _ "e # new"]) simp
  next
    case (Some x)
    with Cons.prems(1) st1 have "r = Some x" "st' = st1" by simp_all
    then show ?thesis using e wr by (intro exI [of _ "[e]"]) simp
  qed
qed

lemma initial_invs: "cache_inv initial_state" "log_inv initial_state"
  by (simp_all add: cache_inv_def log_inv_def initial_state_def)

lemma fl_zero: "fl 0 = 0"
  by (simp add: fl_def)

lemma scale_factor_hr0: "scale_factor A 0 i = scale_factor A 0 j"
  by (simp add: scale_factor_def Let_def float_of_int_def fdiv_def fmul_def fl_zero)

lemma beating_heart_hr0: "beating_heart A img 0 i = beating_heart A img 0 j"
  unfolding beating_heart_def scale_factor_hr0 [of A i j] ..

lemma render_loop_same_key:
  assumes "render_loop A cb n_total 0 frames initial_state = (r, st')"
  shows "(\<forall>e1 \<in> set (rendered st'). \<forall>e2 \<in> set (rendered st').
            log_key e1 = log_key e2 \<longrightarrow>
              log_base e1 = log_base e2 \<and> (log_hr_val e1 = 0 \<longrightarrow> log_heart e1 = log_heart e2))
         \<and> (\<forall>e \<in> set (rendered st'). entry_ok A e)
         \<and> map log_index (rendered st') = [0..<length (rendered st')]
         \<and> map log_frame (rendered st') = take (length (rendered st')) frames
         \<and> (r = None \<longrightarrow> length (rendered st') = length frames)"
proof -
  from render_loop_invs [OF assms initial_invs] have li: "log_inv st'" by simp
  have r0: "rendered initial_state = []" by (simp add: initial_state_def)
  from render_loop_log [OF assms initial_invs(1)] obtain new where
    new: "rendered st' = rendered initial_state @ new" "\<forall>e \<in> set new. entry_ok A e"
      "map log_index new = [0..<0 + length new]" "map log_frame new = take (length new) frames"
      "r = None \<longrightarrow> length new = length frames"
    by blast
  have rn: "rendered st' = new" using new(1) r0 by simp
  have same: "log_base e1 = log_base e2 \<and> (log_hr_val e1 = 0 \<longrightarrow> log_heart e1 = log_heart e2)"
    if e1: "e1 \<in> set (rendered st')" and e2: "e2 \<in> set (rendered st')"
      and k: "log_key e1 = log_key e2" for e1 e2
  proof -
    from li e1 have i1: "base_frame_cache st' (log_key e1) = Some (log_base e1)
        \<and> text_cache st' (hr_text (log_hr_val e1)) = Some (log_hr_text_pil e1)
        \<and> (\<exists>p. log_key e1 = cache_key p (log_hr_val e1))"
      unfolding log_inv_def by blast
    from li e2 have i2: "base_frame_cache st' (log_key e2) = Some (log_base e2)
        \<and> text_cache st' (hr_text (log_hr_val e2)) = Some (log_hr_text_pil e2)
        \<and> (\<exists>p. log_key e2 = cache_key p (log_hr_val e2))"
      unfolding log_inv_def by blast
    from i1 i2 k have base: "log_base e1 = log_base e2" by simp
    from i1 i2 obtain p1 p2 where "log_key e1 = cache_key p1 (log_hr_val e1)"
      and "log_key e2 = cache_key p2 (log_hr_val e2)" by blast
    with k have "cache_key p1 (log_hr_val e1) = cache_key p2 (log_hr_val e2)" by simp
    then have hv: "log_hr_val e1 = log_hr_val e2" by (simp add: cache_key_inj)
    with i1 i2 have img: "log_hr_text_pil e1 = log_hr_text_pil e2" by simp
    have "log_heart e1 = log_heart e2" if z: "log_hr_val e1 = 0"
    proof -
      from new(2) rn e1 e2 have "entry_ok A e1" "entry_ok A e2" by simp_all
      then have "log_heart e1 = beating_heart A (log_hr_text_pil e1) (log_hr_val e1) (log_index e1)"
        and "log_heart e2 = beating_heart A (log_hr_text_pil e2) (log_hr_val e2) (log_index e2)"
        by (simp_all add: entry_ok_def split: prod.splits)
      then have "log_heart e1 = beating_heart A (log_hr_text_pil e1) 0 (log_index e1)"
        and "log_heart e2 = beating_heart A (log_hr_text_pil e1) 0 (log_index e2)"
        using z hv img by simp_all
      moreover have "beating_heart A (log_hr_text_pil e1) 0 (log_index e1)
          = beating_heart A (log_hr_text_pil e1) 0 (log_index e2)"
        by (rule beating_heart_hr0)
      ultimately show ?thesis by simp
    qed
    with base show ?thesis by simp
  qed
  have "\<forall>e1 \<in> set (rendered st'). \<forall>e2 \<in> set (rendered st').
            log_key e1 = log_key e2 \<longrightarrow>
              log_base e1 = log_base e2 \<and> (log_hr_val e1 = 0 \<longrightarrow> log_heart e1 = log_heart e2)"
    using same by blast
  moreover have "\<forall>e \<in> set (rendered st'). entry_ok A e" using new(2) rn by simp
  moreover have "map log_index (rendered st') = [0..<length (rendered st')]" using new(3) rn by simp
  moreover have "map log_frame (rendered st') = take (length (rendered st')) frames"
    using new(4) rn by simp
  moreover have "r = None \<longrightarrow> length (rendered st') = length frames" using new(5) rn by simp
  ultimately show ?thesis by blast
qed

lemma render_loop_no_callback:
  assumes "render_loop A None n_total 0 frames initial_state = (r, st')"
  shows "r = None"
proof -
  from render_loop_invs [OF assms initial_invs]
  have "\<forall>e. r = Some e \<longrightarrow> (\<exists>f p m. None = Some f \<and> f p m = Some e)" by simp
  then show ?thesis by (cases r) simp_all
qed

lemma render_loop_caches_keys:
  assumes "render_loop A cb n_total 0 frames initial_state = (None, st')"
    and "fr \<in> set frames"
  shows "frame_cache_key (fst fr) (fst (snd fr)) \<in> dom (base_frame_cache st')"
proof -
  from render_loop_invs [OF assms(1) initial_invs] have li: "log_inv st'" by simp
  from render_loop_same_key [OF assms(1)] have
    ok: "\<forall>e \<in> set (rendered st'). entry_ok A e"
    and fr: "map log_frame (rendered st') = take (length (rendered st')) frames"
    and len: "length (rendered st') = length frames"
    by simp_all
  from fr len have "map log_frame (rendered st') = frames" by simp
  with assms(2) obtain e where e: "e \<in> set (rendered st')" "log_frame e = fr"
    by (metis (no_types, lifting) image_iff set_map)
  obtain pv hv w where f3: "fr = (pv, hv, w)" by (cases fr)
  from ok e(1) have "entry_ok A e" by blast
  then have "log_key e = frame_cache_key (fst fr) (fst (snd fr))"
    unfolding entry_ok_def e(2) f3 by simp
  moreover from li e(1) have "base_frame_cache st' (log_key e) = Some (log_base e)"
    unfolding log_inv_def by blast
  ultimately show ?thesis by auto
qed

text \<open>
  Claim C10. Whatever frames the loop is given and whatever the callback does, in the
  state the loop reaches every key \<open>(power, heartRate)\<close> present in the base-frame cache
  has its heart-rate text in the text cache; so the base frame of any further frame is
  obtained without \<^verbatim>\<open>KeyError\<close>, and an exception that leaves the loop is one the
  progress callback raised.
\<close>

theorem hit_path_lookup_never_fails:
  assumes "render_loop A cb n_total 0 frames initial_state = (r, st')"
  shows "cache_inv st'
         \<and> (\<forall>p h w. \<exists>x. base_frame A st' p h w = Inr x)
         \<and> (\<forall>e. r = Some e \<longrightarrow> (\<exists>f p m. cb = Some f \<and> f p m = Some e))"
proof -
  from render_loop_invs [OF assms initial_invs] have
    ci: "cache_inv st'" and ex: "\<forall>e. r = Some e \<longrightarrow> (\<exists>f p m. cb = Some f \<and> f p m = Some e)"
    by simp_all
  have "\<exists>x. base_frame A st' p h w = Inr x" for p h w
    using base_frame_ok [OF ci, of A p h w] by blast
  with ci ex show ?thesis by blast
qed

theorem hit_path_lookup_witness:
  "cache_key 100 60 \<in> dom (base_frame_cache (snd (render_loop demo_assets None 1 0 [(100, 60, 20 / 13)] initial_state)))
   \<and> hr_text 60 \<in> dom (text_cache (snd (render_loop demo_assets None 1 0 [(100, 60, 20 / 13)] initial_state)))
   \<and> fst (render_loop demo_assets None 1 0 [(100, 60, 20 / 13)] initial_state) = None"
proof -
  let ?X = "render_loop demo_assets None 1 0 [(100, 60, 20 / 13)] initial_state"
  have eq: "?X = (fst ?X, snd ?X)" by (rule prod.collapse [symmetric])
  note T = hit_path_lookup_never_fails [OF eq]
  from T have "\<forall>e. fst ?X = Some e \<longrightarrow> (\<exists>f p m. (None :: progress_callback option) = Some f \<and> f p m = Some e)"
    by blast
  then have none: "fst ?X = None" by (cases "fst ?X") simp_all
  have eq': "?X = (None, snd ?X)" by (rule prod_eqI) (simp_all only: none fst_conv snd_conv)
  have "(100, 60, 20 / 13) \<in> set [(100 :: rat, 60 :: rat, 20 / 13 :: rat)]" by simp
  from render_loop_caches_keys [OF eq' this]
  have "frame_cache_key 100 60 \<in> dom (base_frame_cache (snd ?X))"
    by (simp only: fst_conv snd_conv)
  moreover have "py_int 100 = 100" "py_int 60 = 60" by (simp_all add: py_int_def)
  ultimately have key: "cache_key 100 60 \<in> dom (base_frame_cache (snd ?X))"
    by (simp add: frame_cache_key_def)
  from T have "cache_inv (snd ?X)" by simp
  with key have "hr_text 60 \<in> dom (text_cache (snd ?X))"
    unfolding cache_inv_def by blast
  with key none show ?thesis by blast
qed

text \<open>
  Claim C5, as amended. Of the frames the loop has composed, any two with equal cache
  keys have identical base frames before the heart is drawn. The heart is computed anew
  for every frame from the truncated heart rate, the heart-rate text and the frame index,
  but it need not differ when the indices differ: for two frames with equal keys and
  truncated heart rate 0 the heart and its position are identical. The log holds the
  frames in order, frame \<open>k\<close> at position \<open>k\<close>, all of them when the loop ends without
  an exception.
\<close>

theorem equal_keys_equal_base_frames:
  assumes "render_loop A cb n_total 0 frames initial_state = (r, st')"
  shows "(\<forall>e1 \<in> set (rendered st'). \<forall>e2 \<in> set (rendered st').
            log_key e1 = log_key e2 \<longrightarrow>
              log_base e1 = log_base e2 \<and> (log_hr_val e1 = 0 \<longrightarrow> log_heart e1 = log_heart e2))
         \<and> (\<forall>e \<in> set (rendered st'). entry_ok A e)
         \<and> map log_index (rendered st') = [0..<length (rendered st')]
         \<and> map log_frame (rendered st') = take (length (rendered st')) frames
         \<and> (r = None \<longrightarrow> length (rendered st') = length frames)"
  using assms by (rule render_loop_same_key)


lemma two_frames_log:
  assumes "py_int h1 = 0" and "py_int h2 = 0" and "py_int p1 = py_int p2"
    and "render_loop A None 2 0 [(p1, h1, w1), (p2, h2, w2)] initial_state = (r, st')"
  shows "length (rendered st') = 2
         \<and> log_index (rendered st' ! 0) = 0 \<and> log_index (rendered st' ! 1) = 1
         \<and> log_key (rendered st' ! 0) = log_key (rendered st' ! 1)
         \<and> log_hr_val (rendered st' ! 0) = 0"
proof -
  let ?es = "rendered st'"
  from render_loop_no_callback [OF assms(4)] have r: "r = None" .
  from render_loop_same_key [OF assms(4)] r have
    ok: "\<forall>e \<in> set ?es. entry_ok A e"
    and ix: "map log_index ?es = [0..<length ?es]"
    and fr: "map log_frame ?es = take (length ?es) [(p1, h1, w1), (p2, h2, w2)]"
    and len: "length ?es = 2"
    by simp_all
  have i0: "log_index (?es ! 0) = 0" and i1: "log_index (?es ! 1) = 1"
    using ix len by (metis nth_map nth_upt add_0 zero_less_numeral one_less_numeral_iff semiring_norm(76))+
  have "map log_frame ?es = [(p1, h1, w1), (p2, h2, w2)]" using fr len by simp
  then have f0: "log_frame (?es ! 0) = (p1, h1, w1)" and f1: "log_frame (?es ! 1) = (p2, h2, w2)"
    using len by (metis nth_map nth_Cons_0 zero_less_numeral, metis nth_map nth_Cons_0 nth_Cons_Suc One_nat_def one_less_numeral_iff semiring_norm(76))
  have "?es ! 0 \<in> set ?es" "?es ! 1 \<in> set ?es" using len by simp_all
  with ok have "entry_ok A (?es ! 0)" "entry_ok A (?es ! 1)" by blast+
  then have "log_key (?es ! 0) = frame_cache_key p1 h1" "log_key (?es ! 1) = frame_cache_key p2 h2"
    "log_hr_val (?es ! 0) = py_int h1"
    unfolding entry_ok_def f0 f1 by simp_all
  with assms(1,2,3) i0 i1 len show ?thesis by (simp add: frame_cache_key_def)
qed

theorem equal_keys_witness:
  "log_key (rendered (snd (render_loop demo_assets None 2 0 [(100, 0, 20 / 13), (100, 0, 20 / 13)] initial_state)) ! 0)
     = log_key (rendered (snd (render_loop demo_assets None 2 0 [(100, 0, 20 / 13), (100, 0, 20 / 13)] initial_state)) ! 1)
   \<and> log_base (rendered (snd (render_loop demo_assets None 2 0 [(100, 0, 20 / 13), (100, 0, 20 / 13)] initial_state)) ! 0)
     = log_base (rendered (snd (render_loop demo_assets None 2 0 [(100, 0, 20 / 13), (100, 0, 20 / 13)] initial_state)) ! 1)
   \<and> log_heart (rendered (snd (render_loop demo_assets None 2 0 [(100, 0, 20 / 13), (100, 0, 20 / 13)] initial_state)) ! 0)
     = log_heart (rendered (snd (render_loop demo_assets None 2 0 [(100, 0, 20 / 13), (100, 0, 20 / 13)] initial_state)) ! 1)
   \<and> length (rendered (snd (render_loop demo_assets None 2 0 [(100, 0, 20 / 13), (100, 0, 20 / 13)] initial_state))) = 2"
proof -
  let ?X = "render_loop demo_assets None 2 0 [(100, 0, 20 / 13), (100, 0, 20 / 13)] initial_state"
  let ?es = "rendered (snd ?X)"
  have eq: "?X = (fst ?X, snd ?X)" by (rule prod.collapse [symmetric])
  have z: "py_int 0 = 0" by (simp add: py_int_def)
  from two_frames_log [OF z z refl eq] have
    len: "length ?es = 2" and k: "log_key (?es ! 0) = log_key (?es ! 1)"
    and h: "log_hr_val (?es ! 0) = 0"
    by blast+
  have m: "?es ! 0 \<in> set ?es" "?es ! 1 \<in> set ?es" using len by simp_all
  from equal_keys_equal_base_frames [OF eq] m k h
  have "log_base (?es ! 0) = log_base (?es ! 1) \<and> log_heart (?es ! 0) = log_heart (?es ! 1)"
    by blast
  with k len show ?thesis by blast
qed

text \<open>
  Claim C5 as stated fails in its second half. Frames 0 and 1 of a run with power 100
  and 100.25 and heart rate 0 and 0.5 have different indices and the same cache key, and
  the heart composited onto them is the same image at the same position.
\<close>

theorem heart_overlay_counterexample:
  "log_index (rendered (snd (render_loop demo_assets None 2 0 [(100, 0, 20 / 13), (401 / 4, 1 / 2, 401 / 260)] initial_state)) ! 0)
     \<noteq> log_index (rendered (snd (render_loop demo_assets None 2 0 [(100, 0, 20 / 13), (401 / 4, 1 / 2, 401 / 260)] initial_state)) ! 1)
   \<and> log_key (rendered (snd (render_loop demo_assets None 2 0 [(100, 0, 20 / 13), (401 / 4, 1 / 2, 401 / 260)] initial_state)) ! 0)
     = log_key (rendered (snd (render_loop demo_assets None 2 0 [(100, 0, 20 / 13), (401 / 4, 1 / 2, 401 / 260)] initial_state)) ! 1)
   \<and> log_heart (rendered (snd (render_loop demo_assets None 2 0 [(100, 0, 20 / 13), (401 / 4, 1 / 2, 401 / 260)] initial_state)) ! 0)
     = log_heart (rendered (snd (render_loop demo_assets None 2 0 [(100, 0, 20 / 13), (401 / 4, 1 / 2, 401 / 260)] initial_state)) ! 1)"
proof -
  let ?X = "render_loop demo_assets None 2 0 [(100, 0, 20 / 13), (401 / 4, 1 / 2, 401 / 260)] initial_state"
  let ?es = "rendered (snd ?X)"
  have eq: "?X = (fst ?X, snd ?X)" by (rule prod.collapse [symmetric])
  have z: "py_int 0 = 0" "py_int (1 / 2) = 0" "py_int 100 = py_int (401 / 4)" by code_simp+
  from two_frames_log [OF z eq] have
    len: "length ?es = 2" and k: "log_key (?es ! 0) = log_key (?es ! 1)"
    and h: "log_hr_val (?es ! 0) = 0"
    and i: "log_index (?es ! 0) = 0" "log_index (?es ! 1) = 1"
    by blast+
  have m: "?es ! 0 \<in> set ?es" "?es ! 1 \<in> set ?es" using len by simp_all
  from render_loop_same_key [OF eq] m k h
  have "log_heart (?es ! 0) = log_heart (?es ! 1)"
    by blast
  with k i show ?thesis by simp
qed

section \<open>Frames of the interpolation and exceptions in the loop\<close>

lemma length_linspace: "length (linspace a b n) = n"
  by (simp add: linspace_def Let_def)

lemma interpolate_frames:
  assumes "tps \<noteq> []" and "dt_sub (json_time (last tps)) (json_time (hd tps)) = Inr td"
  shows "\<exists>frames. interpolate tps = Inr frames \<and> length frames = num_interpolated (total_seconds td)"
proof -
  let ?n = "num_interpolated (total_seconds td)"
  let ?hi = "float_of_int (int (length tps) - 1)"
  let ?xp = "linspace 0 ?hi (length tps)"
  let ?x = "linspace 0 ?hi ?n"
  have xp: "?xp \<noteq> []" using assms(1) length_linspace [of 0 ?hi "length tps"] by auto
  have ip: "np_interp ?x ?xp (map f tps) = Inr (map (interp_at ?xp (map f tps)) ?x)" for f :: "data_point \<Rightarrow> rat"
    using xp by (simp add: np_interp_def length_linspace)
  show ?thesis
    using assms ip by (simp add: interpolate_def Let_def length_linspace)
qed

lemma total_frames_eq:
  assumes "tps \<noteq> []" and "dt_sub (json_time (last tps)) (json_time (hd tps)) = Inr td"
  shows "total_frames_of tps = Inr (num_interpolated (total_seconds td))"
  using interpolate_frames [OF assms] by (auto simp: total_frames_of_def)

lemma render_loop_callback_raises:
  assumes "cache_inv st" and "\<forall>p m. f p m = Some x"
    and "i < 2 * VIDEO_FPS" and "2 * VIDEO_FPS \<le> i + length frs"
  shows "fst (render_loop A (Some f) n_total i frs st) = Some x"
  using assms
proof (induction frs arbitrary: i st)
  case Nil
  then show ?case by simp
next
  case (Cons fr frs)
  obtain st1 where st1: "render_frame A i fr st = Inr st1"
    using render_frame_ok [OF Cons.prems(1)] by blast
  have inv1: "cache_inv st1"
    using render_frame_cache_inv [OF st1 Cons.prems(1)] .
  show ?case
  proof (cases "(i + 1) mod (VIDEO_FPS * 2) = 0")
    case True
    then have "report_progress (Some f) i n_total = Some x"
      using Cons.prems(2) by (simp add: report_progress_def)
    with st1 show ?thesis by simp
  next
    case False
    then have rp: "report_progress (Some f) i n_total = None"
      by (simp add: report_progress_def)
    from False Cons.prems(3) have "i + 1 < 2 * VIDEO_FPS"
      by (metis Suc_eq_plus1 Suc_lessI mod_self mult.commute)
    moreover from Cons.prems(4) have "2 * VIDEO_FPS \<le> (i + 1) + length frs" by simp
    ultimately have "fst (render_loop A (Some f) n_total (i + 1) frs st1) = Some x"
      using Cons.IH [OF inv1 Cons.prems(2)] by blast
    with st1 rp show ?thesis by simp
  qed
qed

lemma num_interpolated_2s: "num_interpolated (total_seconds 2000000) = 60"
  by code_simp

section \<open>The video sink\<close>

lemma render_loop_sink:
  assumes "render_loop A cb n_total 0 frames initial_state = (r, st)"
  shows "\<not> released (out st) \<and> isOpened (out st)"
  using render_loop_invs [OF assms initial_invs] by (simp add: initial_state_def)

lemma load_assets_demo: "\<exists>A. load_assets (Some demo_asset_files) = Inr A"
  by (simp add: load_assets_def resize_icon_def demo_asset_files_def Let_def)

lemma create_gauge_video_loop:
  assumes "load_assets F = Inr A" and "files w json_path = Some (JsonFile tps)"
    and "interpolate tps = Inr frames" and "writable w output_path"
    and "render_loop A cb (length frames) 0 frames initial_state = (r, st)"
  shows "create_gauge_video F json_path output_path cb w =
           (case r of Some e \<Rightarrow> Raised e | None \<Rightarrow> Returned (),
            w\<lparr>files := (files w)(output_path \<mapsto> VideoFile (written (out st)))\<rparr>,
            Some (case r of Some e \<Rightarrow> out st | None \<Rightarrow> (out st)\<lparr>released := True\<rparr>))"
  using assms by (cases r) (simp_all add: create_gauge_video_def)

text \<open>
  Claim C4, as amended. \<^verbatim>\<open>create_gauge_video\<close> releases the sink only on its normal
  way out, after the loop has ended (line 191). Whenever it raises after the writer was
  created, be it because the writer could not be opened or because an exception was
  raised in the loop, the exception leaves the function with the sink not released.
\<close>

theorem sink_released_only_on_return:
  assumes "create_gauge_video F json_path output_path cb w = (res, w', sink)"
  shows "(\<forall>u. res = Returned u \<longrightarrow> (\<exists>wr. sink = Some wr \<and> released wr))
         \<and> (\<forall>e wr. res = Raised e \<and> sink = Some wr \<longrightarrow> \<not> released wr)"
proof (cases "load_assets F")
  case (Inl e)
  with assms show ?thesis by (auto simp: create_gauge_video_def)
next
  case A: (Inr A)
  show ?thesis
  proof (cases "files w json_path")
    case None
    with assms A show ?thesis by (auto simp: create_gauge_video_def)
  next
    case (Some fc)
    show ?thesis
    proof (cases fc)
      case (JsonFile tps)
      show ?thesis
      proof (cases "interpolate tps")
        case (Inl e)
        with assms A Some JsonFile show ?thesis by (auto simp: create_gauge_video_def)
      next
        case (Inr frames)
        show ?thesis
        proof (cases "writable w output_path")
          case False
          with assms A Some JsonFile Inr show ?thesis by (auto simp: create_gauge_video_def)
        next
          case True
          obtain r st where l: "render_loop A cb (length frames) 0 frames initial_state = (r, st)"
            by (cases "render_loop A cb (length frames) 0 frames initial_state")
          from render_loop_sink [OF l] have nr: "\<not> released (out st)" by simp
          from create_gauge_video_loop [OF A _ Inr True l, of json_path] Some JsonFile assms
          have "res = (case r of Some e \<Rightarrow> Raised e | None \<Rightarrow> Returned ())"
            and "sink = Some (case r of Some e \<Rightarrow> out st | None \<Rightarrow> (out st)\<lparr>released := True\<rparr>)"
            by simp_all
          with nr show ?thesis by (cases r) auto
        qed
      qed
    next
      case (VideoFile x)
      with assms A Some show ?thesis by (auto simp: create_gauge_video_def)
    next
      case OtherFile
      with assms A Some show ?thesis by (auto simp: create_gauge_video_def)
    qed
  qed
qed

lemma create_gauge_video_demo:
  assumes "tps \<noteq> []" and "dt_sub (json_time (last tps)) (json_time (hd tps)) = Inr td"
  obtains A frames r st where
    "length frames = num_interpolated (total_seconds td)"
    "render_loop A cb (length frames) 0 frames initial_state = (r, st)"
    "create_gauge_video (Some demo_asset_files) ''sliced.json'' ''out.mp4'' cb (demo_world tps) =
           (case r of Some e \<Rightarrow> Raised e | None \<Rightarrow> Returned (),
            (demo_world tps)\<lparr>files := (files (demo_world tps))(''out.mp4'' \<mapsto> VideoFile (written (out st)))\<rparr>,
            Some (case r of Some e \<Rightarrow> out st | None \<Rightarrow> (out st)\<lparr>released := True\<rparr>))"
proof -
  obtain A where A: "load_assets (Some demo_asset_files) = Inr A" using load_assets_demo by blast
  obtain frames where fr: "interpolate tps = Inr frames"
    and len: "length frames = num_interpolated (total_seconds td)"
    using interpolate_frames [OF assms] by blast
  obtain r st where l: "render_loop A cb (length frames) 0 frames initial_state = (r, st)"
    by (cases "render_loop A cb (length frames) 0 frames initial_state")
  have f: "files (demo_world tps) ''sliced.json'' = Some (JsonFile tps)"
    and wr: "writable (demo_world tps) ''out.mp4''"
    by (simp_all add: demo_world_def)
  from create_gauge_video_loop [OF A f fr wr l] len l show ?thesis by (rule that [rotated 2])
qed

theorem sink_released_witness:
  "fst (create_gauge_video (Some demo_asset_files) ''sliced.json'' ''out.mp4'' None
          (demo_world [demo_point 0 100 0])) = Returned ()
   \<and> map_option released (snd (snd (create_gauge_video (Some demo_asset_files) ''sliced.json'' ''out.mp4'' None
          (demo_world [demo_point 0 100 0])))) = Some True"
proof -
  let ?X = "create_gauge_video (Some demo_asset_files) ''sliced.json'' ''out.mp4'' None
          (demo_world [demo_point 0 100 0])"
  have ne: "[demo_point 0 100 0] \<noteq> []" by simp
  have dt: "dt_sub (json_time (last [demo_point 0 100 0])) (json_time (hd [demo_point 0 100 0])) = Inr 0"
    by (simp add: demo_point_def)
  obtain A frames r st where
    l: "render_loop A None (length frames) 0 frames initial_state = (r, st)"
    and X: "?X = (case r of Some e \<Rightarrow> Raised e | None \<Rightarrow> Returned (),
            (demo_world [demo_point 0 100 0])\<lparr>files := (files (demo_world [demo_point 0 100 0]))(''out.mp4'' \<mapsto> VideoFile (written (out st)))\<rparr>,
            Some (case r of Some e \<Rightarrow> out st | None \<Rightarrow> (out st)\<lparr>released := True\<rparr>))"
    by (rule create_gauge_video_demo [OF ne dt, of None]) blast
  from render_loop_no_callback [OF l] have r: "r = None" .
  have ret: "fst ?X = Returned ()" using X r by simp
  have eq: "?X = (fst ?X, fst (snd ?X), snd (snd ?X))" by simp
  from sink_released_only_on_return [OF eq] ret
  obtain wr where "snd (snd ?X) = Some wr" "released wr" by blast
  with ret show ?thesis by simp
qed

text \<open>
  Claim C4 as stated fails. A sliced file of two points two seconds apart gives 60
  frames; a progress callback that raises is called after frame 59, and its exception
  leaves \<^verbatim>\<open>create_gauge_video\<close> with the writer opened and not released.
\<close>

theorem sink_left_open_counterexample:
  "fst (create_gauge_video (Some demo_asset_files) ''sliced.json'' ''out.mp4''
          (Some (\<lambda>p m. Some (UserError ''stop'')))
          (demo_world [demo_point 0 100 0, demo_point 2000000 100 0])) = Raised (UserError ''stop'')
   \<and> map_option isOpened (snd (snd (create_gauge_video (Some demo_asset_files) ''sliced.json'' ''out.mp4''
          (Some (\<lambda>p m. Some (UserError ''stop'')))
          (demo_world [demo_point 0 100 0, demo_point 2000000 100 0])))) = Some True
   \<and> map_option released (snd (snd (create_gauge_video (Some demo_asset_files) ''sliced.json'' ''out.mp4''
          (Some (\<lambda>p m. Some (UserError ''stop'')))
          (demo_world [demo_point 0 100 0, demo_point 2000000 100 0])))) = Some False"
proof -
  let ?tps = "[demo_point 0 100 0, demo_point 2000000 100 0]"
  let ?cb = "Some (\<lambda>p m. Some (UserError ''stop'')) :: progress_callback option"
  let ?X = "create_gauge_video (Some demo_asset_files) ''sliced.json'' ''out.mp4'' ?cb (demo_world ?tps)"
  have ne: "?tps \<noteq> []" by simp
  have dt: "dt_sub (json_time (last ?tps)) (json_time (hd ?tps)) = Inr 2000000"
    by (simp add: demo_point_def)
  obtain A frames r st where
    len: "length frames = num_interpolated (total_seconds 2000000)"
    and l: "render_loop A ?cb (length frames) 0 frames initial_state = (r, st)"
    and X: "?X = (case r of Some e \<Rightarrow> Raised e | None \<Rightarrow> Returned (),
            (demo_world ?tps)\<lparr>files := (files (demo_world ?tps))(''out.mp4'' \<mapsto> VideoFile (written (out st)))\<rparr>,
            Some (case r of Some e \<Rightarrow> out st | None \<Rightarrow> (out st)\<lparr>released := True\<rparr>))"
    by (rule create_gauge_video_demo [OF ne dt, of ?cb]) blast
  from len have len60: "length frames = 60" by (simp only: num_interpolated_2s)
  have "fst (render_loop A ?cb (length frames) 0 frames initial_state) = Some (UserError ''stop'')"
    by (rule render_loop_callback_raises [OF initial_invs(1)]) (simp_all add: len60 VIDEO_FPS_def)
  with l have r: "r = Some (UserError ''stop'')" by simp
  from render_loop_sink [OF l] have "\<not> released (out st)" "isOpened (out st)" by simp_all
  with X r show ?thesis by simp
qed

section \<open>The number of frames\<close>

lemma floor_duration_fps: "\<lfloor>rat_of_int us / 1000000 * rat_of_nat VIDEO_FPS\<rfloor> = 3 * us div 100000"
proof -
  have "rat_of_int us / 1000000 * rat_of_nat VIDEO_FPS = rat_of_int (3 * us) / rat_of_int 100000"
    by (simp add: VIDEO_FPS_def)
  then show ?thesis by (simp only: floor_divide_of_int_eq)
qed

text \<open>
  Claim C1, as amended. For a non-empty sliced series whose first-to-last span is \<open>us\<close>
  microseconds: when the span is not positive there is exactly one frame. When the span
  is at least one frame period, so that duration times frame rate is at least 1 (and the
  span is below \<open>10 ^ 8\<close> seconds), the number of frames is
  \<^verbatim>\<open>int(duration_seconds * VIDEO_FPS)\<close>, the product of the two doubles truncated toward
  zero and not rounded to nearest; it is at least 1; it is the floor of duration times
  frame rate when that product is not an integer, the product or one less when it is an
  integer, and the product itself when the span is a whole number of seconds.
\<close>

theorem frame_count_truncates:
  assumes "tps \<noteq> []" and "dt_sub (json_time (last tps)) (json_time (hd tps)) = Inr us"
  shows "(us \<le> 0 \<longrightarrow> total_frames_of tps = Inr 1)
         \<and> (100000 \<le> 3 * us \<and> us < 100000000000000 \<longrightarrow>
              (\<exists>n. total_frames_of tps = Inr n
                 \<and> int n = py_int (fmul (total_seconds us) (float_of_int (int VIDEO_FPS)))
                 \<and> 1 \<le> n
                 \<and> (if 100000 dvd 3 * us
                     then int n = \<lfloor>rat_of_int us / 1000000 * rat_of_nat VIDEO_FPS\<rfloor>
                          \<or> int n = \<lfloor>rat_of_int us / 1000000 * rat_of_nat VIDEO_FPS\<rfloor> - 1
                     else int n = \<lfloor>rat_of_int us / 1000000 * rat_of_nat VIDEO_FPS\<rfloor>)
                 \<and> (1000000 dvd us \<longrightarrow>
                      int n = \<lfloor>rat_of_int us / 1000000 * rat_of_nat VIDEO_FPS\<rfloor>)))"
proof -
  note tf = total_frames_eq [OF assms]
  have one: "total_frames_of tps = Inr 1" if "us \<le> 0"
  proof -
    from that have "\<not> 0 < total_seconds us" by (simp add: total_seconds_pos_iff)
    then show ?thesis by (simp add: tf num_interpolated_def)
  qed
  have many: "\<exists>n. total_frames_of tps = Inr n
                 \<and> int n = py_int (fmul (total_seconds us) (float_of_int (int VIDEO_FPS)))
                 \<and> 1 \<le> n
                 \<and> (if 100000 dvd 3 * us
                     then int n = \<lfloor>rat_of_int us / 1000000 * rat_of_nat VIDEO_FPS\<rfloor>
                          \<or> int n = \<lfloor>rat_of_int us / 1000000 * rat_of_nat VIDEO_FPS\<rfloor> - 1
                     else int n = \<lfloor>rat_of_int us / 1000000 * rat_of_nat VIDEO_FPS\<rfloor>)
                 \<and> (1000000 dvd us \<longrightarrow>
                      int n = \<lfloor>rat_of_int us / 1000000 * rat_of_nat VIDEO_FPS\<rfloor>)"
    if lo: "100000 \<le> 3 * us" and hi: "us < 100000000000000"
  proof -
    define n where "n = num_interpolated (total_seconds us)"
    have us: "0 < us" using lo by linarith
    have n1: "1 \<le> n" unfolding n_def by (rule num_interpolated_pos [OF lo hi])
    have "n = nat (py_int (fmul (total_seconds us) (float_of_int (int VIDEO_FPS))))"
      using us by (simp add: n_def num_interpolated_def total_seconds_pos_iff)
    with n1 have exact: "int n = py_int (fmul (total_seconds us) (float_of_int (int VIDEO_FPS)))"
      by linarith
    have fl: "if 100000 dvd 3 * us
              then int n = 3 * us div 100000 \<or> int n = 3 * us div 100000 - 1
              else int n = 3 * us div 100000"
      unfolding n_def by (rule num_interpolated_floor [OF us hi])
    have whole: "int n = 3 * us div 100000" if "1000000 dvd us"
    proof -
      from that obtain s where s: "us = s * 1000000" by (auto simp: dvd_def)
      with us hi have "0 < s" "s < 100000000" by simp_all
      from num_interpolated_whole_seconds [OF this] have "int n = s * 30"
        by (simp add: n_def s VIDEO_FPS_def)
      then show ?thesis by (simp add: s)
    qed
    from tf exact n1 fl whole show ?thesis
      unfolding floor_duration_fps n_def by blast
  qed
  from one many show ?thesis by blast
qed

lemma frames_quarter_second: "num_interpolated (total_seconds 250000) = 7"
  by code_simp

lemma frames_32nd_second: "num_interpolated (total_seconds 31250) = 0"
  by code_simp

lemma frames_4100ms: "num_interpolated (total_seconds 4100000) = 122"
  by code_simp

lemma demo_points_span:
  "[demo_point 0 p h, demo_point us p h] \<noteq> []"
  "dt_sub (json_time (last [demo_point 0 p h, demo_point us p h]))
          (json_time (hd [demo_point 0 p h, demo_point us p h])) = Inr us"
  by (simp_all add: demo_point_def)

theorem frame_count_witness:
  "total_frames_of [demo_point 0 100 60, demo_point 4100000 100 60] = Inr 122
   \<and> (100000 :: int) dvd 3 * 4100000
   \<and> int 122 = \<lfloor>rat_of_int 4100000 / 1000000 * rat_of_nat VIDEO_FPS\<rfloor> - 1
   \<and> total_frames_of [demo_point 0 100 60, demo_point 2000000 100 60] = Inr 60
   \<and> total_frames_of [demo_point 0 100 60, demo_point 0 100 60] = Inr 1"
proof -
  have b: "(100000 :: int) \<le> 3 * 4100000 \<and> (4100000 :: int) < 100000000000000" by simp
  from frame_count_truncates [OF demo_points_span [where p = 100 and h = 60 and us = 4100000]] b
  obtain n where n: "total_frames_of [demo_point 0 100 60, demo_point 4100000 100 60] = Inr n"
    by blast
  have "total_frames_of [demo_point 0 100 60, demo_point 4100000 100 60] = Inr 122"
    using total_frames_eq [OF demo_points_span [where p = 100 and h = 60 and us = 4100000]]
    by (simp only: frames_4100ms)
  moreover have "total_frames_of [demo_point 0 100 60, demo_point 0 100 60] = Inr 1"
    using frame_count_truncates [OF demo_points_span [where p = 100 and h = 60 and us = 0]] by simp
  moreover have "int 122 = \<lfloor>rat_of_int 4100000 / 1000000 * rat_of_nat VIDEO_FPS\<rfloor> - 1"
    unfolding floor_duration_fps by simp
  moreover have "total_frames_of [demo_point 0 100 60, demo_point 2000000 100 60] = Inr 60"
  proof -
    have c: "(100000 :: int) \<le> 3 * 2000000 \<and> (2000000 :: int) < 100000000000000"
      and d: "(1000000 :: int) dvd 2000000" by simp_all
    from frame_count_truncates [OF demo_points_span [where p = 100 and h = 60 and us = 2000000]] c d
    obtain m where m: "total_frames_of [demo_point 0 100 60, demo_point 2000000 100 60] = Inr m"
      and v: "int m = \<lfloor>rat_of_int 2000000 / 1000000 * rat_of_nat VIDEO_FPS\<rfloor>"
      by blast
    from v have "int m = 60" unfolding floor_duration_fps by simp
    with m show ?thesis by simp
  qed
  ultimately show ?thesis by simp
qed

text \<open>
  Claim C1 as stated fails. A span of 0.25 seconds gives 7 frames, not
  \<open>round (0.25 * 30) = 8\<close>; a span of 0.03125 seconds gives no frame at all, not the
  minimum of 1. Both products are exact in doubles.
\<close>

theorem frame_count_rounding_counterexample:
  "total_frames_of [demo_point 0 100 60, demo_point 250000 100 60] = Inr 7
   \<and> max 1 (round (250000 / 1000000 * 30 :: rat)) = 8
   \<and> total_frames_of [demo_point 0 100 60, demo_point 31250 100 60] = Inr 0
   \<and> max 1 (round (31250 / 1000000 * 30 :: rat)) = 1"
proof -
  have "total_frames_of [demo_point 0 100 60, demo_point 250000 100 60] = Inr 7"
    using total_frames_eq [OF demo_points_span [where p = 100 and h = 60 and us = 250000]] by (simp only: frames_quarter_second)
  moreover have "total_frames_of [demo_point 0 100 60, demo_point 31250 100 60] = Inr 0"
    using total_frames_eq [OF demo_points_span [where p = 100 and h = 60 and us = 31250]] by (simp only: frames_32nd_second)
  moreover have "round (250000 / 1000000 * 30 :: rat) = 8" "round (31250 / 1000000 * 30 :: rat) = 1"
    by code_simp+
  ultimately show ?thesis by simp
qed

section \<open>Cleanup of the sliced file\<close>

lemma create_gauge_video_empty:
  assumes "load_assets F = Inr A" and "files w json_path = Some (JsonFile [])"
  shows "create_gauge_video F json_path output_path cb w
           = (Raised (ValueError ''Input JSON file is empty.''), w, None)"
  using assms by (simp add: create_gauge_video_def interpolate_def)

text \<open>
  Claim C9. However the orchestrated generation ends, with the output path returned or
  with an exception raised by the callback, the slicer or the video generation, the
  sliced-data JSON file is not there when control is back at the caller; no other file
  is touched by the cleanup.
\<close>

theorem temp_file_always_removed:
  "files (snd (orchestrate_video_generation tz F tcx start_t end_t output_path progress_callback w))
     (''temp_sliced_data_'' @ basename output_path @ ''.json'') = None
   \<and> (\<forall>path. path \<noteq> ''temp_sliced_data_'' @ basename output_path @ ''.json'' \<longrightarrow>
         files (snd (orchestrate_video_generation tz F tcx start_t end_t output_path progress_callback w)) path
         = files (snd (orchestrate_try tz F tcx start_t end_t output_path
                    (''temp_sliced_data_'' @ basename output_path @ ''.json'') progress_callback w)) path)
   \<and> fst (orchestrate_video_generation tz F tcx start_t end_t output_path progress_callback w)
       = fst (orchestrate_try tz F tcx start_t end_t output_path
                    (''temp_sliced_data_'' @ basename output_path @ ''.json'') progress_callback w)"
proof -
  define tmp where "tmp = ''temp_sliced_data_'' @ basename output_path @ ''.json''"
  obtain res w' where t: "orchestrate_try tz F tcx start_t end_t output_path tmp progress_callback w = (res, w')"
    by (cases "orchestrate_try tz F tcx start_t end_t output_path tmp progress_callback w")
  have ov: "orchestrate_video_generation tz F tcx start_t end_t output_path progress_callback w
      = (res, if files w' tmp \<noteq> None then w'\<lparr>files := (files w')(tmp := None)\<rparr> else w')"
    unfolding orchestrate_video_generation_def Let_def tmp_def [symmetric] t by simp
  have "files (snd (orchestrate_video_generation tz F tcx start_t end_t output_path progress_callback w)) tmp = None
   \<and> (\<forall>path. path \<noteq> tmp \<longrightarrow>
         files (snd (orchestrate_video_generation tz F tcx start_t end_t output_path progress_callback w)) path
         = files (snd (orchestrate_try tz F tcx start_t end_t output_path tmp progress_callback w)) path)
   \<and> fst (orchestrate_video_generation tz F tcx start_t end_t output_path progress_callback w)
       = fst (orchestrate_try tz F tcx start_t end_t output_path tmp progress_callback w)"
    unfolding ov t by (cases "files w' tmp") simp_all
  then show ?thesis unfolding tmp_def .
qed

theorem temp_file_removed_witness:
  "fst (orchestrate_video_generation demo_zone (Some demo_asset_files) [] (Aware 0 0) (Aware 10 0)
          ''out/v.mp4'' (\<lambda>p m. None) (demo_world []))
     = Raised (ValueError ''Input JSON file is empty.'')
   \<and> files (snd (orchestrate_try demo_zone (Some demo_asset_files) [] (Aware 0 0) (Aware 10 0)
          ''out/v.mp4'' ''temp_sliced_data_v.mp4.json'' (\<lambda>p m. None) (demo_world [])))
        ''temp_sliced_data_v.mp4.json'' = Some (JsonFile [])
   \<and> files (snd (orchestrate_video_generation demo_zone (Some demo_asset_files) [] (Aware 0 0) (Aware 10 0)
          ''out/v.mp4'' (\<lambda>p m. None) (demo_world [])))
        ''temp_sliced_data_v.mp4.json'' = None
   \<and> files (snd (orchestrate_video_generation demo_zone (Some demo_asset_files) [] (Aware 0 0) (Aware 10 0)
          ''out/v.mp4'' (\<lambda>p m. None) (demo_world [])))
        ''sliced.json'' = Some (JsonFile [])"
proof -
  let ?cb = "(\<lambda>p m. None) :: progress_callback"
  let ?tmp = "''temp_sliced_data_v.mp4.json''"
  let ?T = "orchestrate_try demo_zone (Some demo_asset_files) [] (Aware 0 0) (Aware 10 0)
          ''out/v.mp4'' ?tmp ?cb (demo_world [])"
  let ?W = "orchestrate_video_generation demo_zone (Some demo_asset_files) [] (Aware 0 0) (Aware 10 0)
          ''out/v.mp4'' ?cb (demo_world [])"
  obtain A where A: "load_assets (Some demo_asset_files) = Inr A" using load_assets_demo by blast
  define w1 where "w1 = (demo_world [])\<lparr>files := (files (demo_world []))(?tmp \<mapsto> JsonFile []),
                 stdout := stdout (demo_world []) @ [''Sliced data saved to '' @ ?tmp]\<rparr>"
  have sl: "slice_data_and_save_json demo_zone [] (Aware 0 0) (Aware 10 0) ?tmp (demo_world [])
      = (Returned (), w1)"
    by (simp add: slice_data_and_save_json_def slice_data_def w1_def demo_world_def)
  have f1: "files w1 ?tmp = Some (JsonFile [])" by (simp add: w1_def)
  have cg: "create_gauge_video (Some demo_asset_files) ?tmp ''out/v.mp4''
              (Some (video_progress_adapter ?cb)) w1
            = (Raised (ValueError ''Input JSON file is empty.''), w1, None)"
    by (rule create_gauge_video_empty [OF A f1])
  have T: "?T = (Raised (ValueError ''Input JSON file is empty.''), w1)"
    by (simp add: orchestrate_try_def sl cg)
  have bn: "''temp_sliced_data_'' @ basename ''out/v.mp4'' @ ''.json'' = ?tmp"
    by (simp add: basename_def)
  note C = temp_file_always_removed [of demo_zone "Some demo_asset_files" "[]" "Aware 0 0" "Aware 10 0"
      "''out/v.mp4''" ?cb "demo_world []", unfolded bn T]
  from C have "fst ?W = Raised (ValueError ''Input JSON file is empty.'')" by simp
  moreover from C have "files (snd ?W) ?tmp = None" by simp
  moreover have "files (snd ?T) ?tmp = Some (JsonFile [])" unfolding T by (simp add: f1)
  moreover have "files (snd ?W) ''sliced.json'' = Some (JsonFile [])"
  proof -
    have "''sliced.json'' \<noteq> ?tmp" by simp
    with C have "files (snd ?W) ''sliced.json'' = files w1 ''sliced.json''" by simp
    then show ?thesis by (simp add: w1_def demo_world_def)
  qed
  ultimately show ?thesis by blast
qed

section \<open>Slicing\<close>

lemma slice_loop_filter:
  "slice_loop s e tps acc
     = acc @ map to_data_point (filter (\<lambda>tp. utc_us s \<le> time tp \<and> time tp \<le> utc_us e) tps)"
  by (induction tps arbitrary: acc) simp_all

text \<open>
  Claim C6. Slicing first brings both window endpoints to UTC: a naive endpoint is read
  in the local zone and converted, an aware endpoint is converted directly. It then
  keeps exactly the points whose time \<open>t\<close> has \<open>start \<le> t \<le> end\<close>, both ends included, in
  their original order; each point kept carries the power, heart rate, cadence, distance
  and speed of the source point and its time as ISO text. Whatever the window selects,
  also nothing, is written to the file and the call returns; no error is raised for an
  empty result.
\<close>

theorem slice_is_inclusive_window:
  "slice_data tz tps start_t end_t
     = map (\<lambda>tp. \<lparr>json_time = Aware (time tp) 0, json_power = power_w tp, json_hr = hr tp,
                   json_cadence = cadence tp, json_distance = distance tp, json_speed = speed tp\<rparr>)
         (filter (\<lambda>tp. utc_us (window_utc tz start_t) \<le> time tp \<and> time tp \<le> utc_us (window_utc tz end_t)) tps)
   \<and> window_utc tz (Naive wall) = Aware (wall - offset_of_wall tz wall) 0
   \<and> window_utc tz (Aware wall off) = Aware (wall - off) 0
   \<and> utc_us (Aware wall off) = wall - off
   \<and> (writable w output_path \<longrightarrow>
        slice_data_and_save_json tz tps start_t end_t output_path w
          = (Returned (),
             w\<lparr>files := (files w)(output_path \<mapsto> JsonFile (slice_data tz tps start_t end_t)),
               stdout := stdout w @ [''Sliced data saved to '' @ output_path]\<rparr>))"
proof -
  have "to_data_point = (\<lambda>tp. \<lparr>json_time = Aware (time tp) 0, json_power = power_w tp, json_hr = hr tp,
                   json_cadence = cadence tp, json_distance = distance tp, json_speed = speed tp\<rparr>)"
    by (rule ext) (simp add: to_data_point_def)
  then have "slice_data tz tps start_t end_t
     = map (\<lambda>tp. \<lparr>json_time = Aware (time tp) 0, json_power = power_w tp, json_hr = hr tp,
                   json_cadence = cadence tp, json_distance = distance tp, json_speed = speed tp\<rparr>)
         (filter (\<lambda>tp. utc_us (window_utc tz start_t) \<le> time tp \<and> time tp \<le> utc_us (window_utc tz end_t)) tps)"
    by (simp add: slice_data_def slice_loop_filter)
  then show ?thesis
    by (simp add: window_utc_def slice_data_and_save_json_def Let_def)
qed

theorem slice_window_witness:
  "slice_data demo_zone
       [demo_tp 0 None, demo_tp 5000000 (Some 5), demo_tp 10000000 (Some 10), demo_tp 15000000 None]
       (Aware 3605000000 3600000000) (Naive 3610000000)
     = [\<lparr>json_time = Aware 5000000 0, json_power = 100, json_hr = 60, json_cadence = 80,
         json_distance = Some 5, json_speed = None\<rparr>,
        \<lparr>json_time = Aware 10000000 0, json_power = 100, json_hr = 60, json_cadence = 80,
         json_distance = Some 10, json_speed = None\<rparr>]
   \<and> slice_data_and_save_json demo_zone [demo_tp 0 None, demo_tp 5000000 None]
       (Naive 3606000000) (Naive 3609000000) ''t.json'' (demo_world [])
     = (Returned (),
        (demo_world [])\<lparr>files := (files (demo_world []))(''t.json'' \<mapsto> JsonFile []),
                       stdout := stdout (demo_world []) @ [''Sliced data saved to t.json'']\<rparr>)"
proof -
  have wr: "writable (demo_world []) ''t.json''" by (simp add: demo_world_def)
  note T1 = slice_is_inclusive_window [of demo_zone
      "[demo_tp 0 None, demo_tp 5000000 (Some 5), demo_tp 10000000 (Some 10), demo_tp 15000000 None]"
      "Aware 3605000000 3600000000" "Naive 3610000000" 0 0 "demo_world []" "''t.json''"]
  note T2 = slice_is_inclusive_window [of demo_zone "[demo_tp 0 None, demo_tp 5000000 None]"
      "Naive 3606000000" "Naive 3609000000" 0 0 "demo_world []" "''t.json''"]
  have "slice_data demo_zone
       [demo_tp 0 None, demo_tp 5000000 (Some 5), demo_tp 10000000 (Some 10), demo_tp 15000000 None]
       (Aware 3605000000 3600000000) (Naive 3610000000)
     = [\<lparr>json_time = Aware 5000000 0, json_power = 100, json_hr = 60, json_cadence = 80,
         json_distance = Some 5, json_speed = None\<rparr>,
        \<lparr>json_time = Aware 10000000 0, json_power = 100, json_hr = 60, json_cadence = 80,
         json_distance = Some 10, json_speed = None\<rparr>]"
    using T1 by (simp add: window_utc_def demo_zone_def demo_tp_def)
  moreover have "slice_data demo_zone [demo_tp 0 None, demo_tp 5000000 None]
       (Naive 3606000000) (Naive 3609000000) = []"
    using T2 by (simp add: window_utc_def demo_zone_def demo_tp_def)
  moreover from T2 wr have "slice_data_and_save_json demo_zone [demo_tp 0 None, demo_tp 5000000 None]
       (Naive 3606000000) (Naive 3609000000) ''t.json'' (demo_world [])
     = (Returned (),
        (demo_world [])\<lparr>files := (files (demo_world []))(''t.json'' \<mapsto>
             JsonFile (slice_data demo_zone [demo_tp 0 None, demo_tp 5000000 None]
                         (Naive 3606000000) (Naive 3609000000))),
           stdout := stdout (demo_world []) @ [''Sliced data saved to '' @ ''t.json'']\<rparr>)"
    by blast
  ultimately show ?thesis by simp
qed

section \<open>Speed from distance\<close>

lemma speed_step_assigns:
  "speed_step i tps = tps[i := (tps ! i)\<lparr>speed := Some (assigned_speed tps i)\<rparr>]"
  by (simp add: speed_step_def assigned_speed_def Let_def)

lemma assigned_speed_cong:
  assumes "distance (A ! i) = distance (B ! i)" and "time (A ! i) = time (B ! i)"
    and "0 < i \<Longrightarrow> A ! (i - 1) = B ! (i - 1)"
  shows "assigned_speed A i = assigned_speed B i"
  using assms by (cases "0 < i") (simp_all add: assigned_speed_def Let_def)

lemma speed_pass:
  assumes "k \<le> length tps"
  shows "length (fold speed_step [0..<k] tps) = length tps
         \<and> (\<forall>j. k \<le> j \<and> j < length tps \<longrightarrow> fold speed_step [0..<k] tps ! j = tps ! j)
         \<and> (\<forall>j<k. fold speed_step [0..<k] tps ! j
                     = (tps ! j)\<lparr>speed := Some (assigned_speed (fold speed_step [0..<k] tps) j)\<rparr>)"
  using assms
proof (induction k)
  case 0
  then show ?case by simp
next
  case (Suc k)
  let ?R = "fold speed_step [0..<k] tps"
  let ?R' = "fold speed_step [0..<Suc k] tps"
  from Suc have k: "k < length tps" by simp
  from Suc.IH k have len: "length ?R = length tps"
    and rest: "\<forall>j. k \<le> j \<and> j < length tps \<longrightarrow> ?R ! j = tps ! j"
    and fin: "\<forall>j<k. ?R ! j = (tps ! j)\<lparr>speed := Some (assigned_speed ?R j)\<rparr>"
    by simp_all
  have R': "?R' = ?R[k := (?R ! k)\<lparr>speed := Some (assigned_speed ?R k)\<rparr>]"
    by (simp add: speed_step_assigns)
  have Rk: "?R ! k = tps ! k" using rest k by simp
  have len': "length ?R' = length tps" unfolding R' using len by simp
  have other: "?R' ! j = ?R ! j" if "j \<noteq> k" for j unfolding R' using that by simp
  have at_k: "?R' ! k = (tps ! k)\<lparr>speed := Some (assigned_speed ?R k)\<rparr>"
    unfolding R' using k len Rk by simp
  have same: "assigned_speed ?R' j = assigned_speed ?R j" if "j \<le> k" for j
  proof (rule assigned_speed_cong)
    show "distance (?R' ! j) = distance (?R ! j)" "time (?R' ! j) = time (?R ! j)"
      using that at_k Rk other [of j] by (cases "j = k"; simp)+
    show "?R' ! (j - 1) = ?R ! (j - 1)" if "0 < j"
      using that \<open>j \<le> k\<close> by (intro other) simp
  qed
  have "\<forall>j. Suc k \<le> j \<and> j < length tps \<longrightarrow> ?R' ! j = tps ! j"
    using rest other by simp
  moreover have "\<forall>j<Suc k. ?R' ! j = (tps ! j)\<lparr>speed := Some (assigned_speed ?R' j)\<rparr>"
  proof (intro allI impI)
    fix j assume "j < Suc k"
    then have jk: "j \<le> k" by simp
    show "?R' ! j = (tps ! j)\<lparr>speed := Some (assigned_speed ?R' j)\<rparr>"
    proof (cases "j = k")
      case True
      then show ?thesis using at_k same [OF jk] by simp
    next
      case False
      with jk have "j < k" by simp
      with fin have "?R ! j = (tps ! j)\<lparr>speed := Some (assigned_speed ?R j)\<rparr>" by simp
      then show ?thesis using other [OF False] same [OF jk] by simp
    qed
  qed
  ultimately show ?case using len' by blast
qed

lemma compute_speeds_entries:
  "length (compute_speeds tps) = length tps
   \<and> (\<forall>j<length tps. compute_speeds tps ! j
                     = (tps ! j)\<lparr>speed := Some (assigned_speed (compute_speeds tps) j)\<rparr>)"
  using speed_pass [of "length tps" tps] by (simp add: compute_speeds_def)

text \<open>
  Claim C3, as amended. In the series after the speed loop every point has a speed and
  is otherwise unchanged. The first point's speed is 0. For a point \<open>i > 0\<close> whose
  distance and whose predecessor's distance are known, the speed is the distance
  difference divided by the time difference in seconds (in doubles) when the time
  difference is positive, and the predecessor's speed when it is not. When the distance
  of the point or of its predecessor is missing, the speed is 0: it is not inherited.
\<close>

theorem speed_derivation:
  assumes "i < length tps"
  shows "length (compute_speeds tps) = length tps
         \<and> compute_speeds tps ! i = (tps ! i)\<lparr>speed := speed (compute_speeds tps ! i)\<rparr>
         \<and> speed (compute_speeds tps ! i) \<noteq> None
         \<and> (i = 0 \<longrightarrow> speed (compute_speeds tps ! i) = Some 0)
         \<and> (0 < i \<longrightarrow>
              (\<forall>d d'. distance (tps ! i) = Some d \<and> distance (tps ! (i - 1)) = Some d' \<longrightarrow>
                 (if 0 < time (tps ! i) - time (tps ! (i - 1))
                  then speed (compute_speeds tps ! i)
                       = Some (fdiv (fsub d d') (total_seconds (time (tps ! i) - time (tps ! (i - 1)))))
                  else speed (compute_speeds tps ! i) = speed (compute_speeds tps ! (i - 1))))
              \<and> (distance (tps ! i) = None \<or> distance (tps ! (i - 1)) = None \<longrightarrow>
                   speed (compute_speeds tps ! i) = Some 0))"
proof -
  let ?R = "compute_speeds tps"
  from compute_speeds_entries [of tps] have len: "length ?R = length tps"
    and ent: "\<And>j. j < length tps \<Longrightarrow> ?R ! j = (tps ! j)\<lparr>speed := Some (assigned_speed ?R j)\<rparr>"
    by simp_all
  note ei = ent [OF assms]
  have sp: "speed (?R ! i) = Some (assigned_speed ?R i)" by (subst ei) simp
  have di: "distance (?R ! i) = distance (tps ! i)" and ti: "time (?R ! i) = time (tps ! i)"
    by (subst ei, simp)+
  have unchanged: "?R ! i = (tps ! i)\<lparr>speed := speed (?R ! i)\<rparr>"
    unfolding sp by (rule ei)
  have first: "speed (?R ! i) = Some 0" if "i = 0"
    unfolding sp using that by (simp add: assigned_speed_def)
  have later: "(\<forall>d d'. distance (tps ! i) = Some d \<and> distance (tps ! (i - 1)) = Some d' \<longrightarrow>
                 (if 0 < time (tps ! i) - time (tps ! (i - 1))
                  then speed (?R ! i)
                       = Some (fdiv (fsub d d') (total_seconds (time (tps ! i) - time (tps ! (i - 1)))))
                  else speed (?R ! i) = speed (?R ! (i - 1))))
              \<and> (distance (tps ! i) = None \<or> distance (tps ! (i - 1)) = None \<longrightarrow>
                   speed (?R ! i) = Some 0)" if pos: "0 < i"
  proof -
    define p where "p = i - 1"
    from pos assms have pl: "p < length tps" by (simp add: p_def)
    note ep = ent [OF pl]
    have dp: "distance (?R ! p) = distance (tps ! p)"
      and tp: "time (?R ! p) = time (tps ! p)"
      by (subst ep, simp)+
    have as: "assigned_speed ?R i =
        (if distance (?R ! i) \<noteq> None \<and> distance (?R ! p) \<noteq> None
         then if 0 < total_seconds (time (?R ! i) - time (?R ! p))
              then fdiv (fsub (the (distance (?R ! i))) (the (distance (?R ! p))))
                        (total_seconds (time (?R ! i) - time (?R ! p)))
              else (case speed (?R ! p) of None \<Rightarrow> 0 | Some v \<Rightarrow> v)
         else 0)"
      unfolding assigned_speed_def Let_def p_def using pos by simp
    have spp: "speed (?R ! p) \<noteq> None" by (subst ep) simp
    have "(\<forall>d d'. distance (tps ! i) = Some d \<and> distance (tps ! p) = Some d' \<longrightarrow>
                 (if 0 < time (tps ! i) - time (tps ! p)
                  then speed (?R ! i)
                       = Some (fdiv (fsub d d') (total_seconds (time (tps ! i) - time (tps ! p))))
                  else speed (?R ! i) = speed (?R ! p)))
              \<and> (distance (tps ! i) = None \<or> distance (tps ! p) = None \<longrightarrow>
                   speed (?R ! i) = Some 0)"
      using spp unfolding sp as di ti dp tp total_seconds_pos_iff by auto
    then show ?thesis unfolding p_def .
  qed
  have nn: "speed (?R ! i) \<noteq> None" unfolding sp by simp
  from len unchanged nn first later show ?thesis by blast
qed

lemma demo_speeds:
  "map speed (compute_speeds [demo_tp 0 (Some 0), demo_tp 1000000 (Some 10), demo_tp 2000000 None])
     = [Some 0, Some 10, Some 0]"
  by code_simp

lemma demo_quotient: "fdiv (fsub 10 0) (total_seconds 2000000) = 5"
  by code_simp

theorem speed_derivation_witness:
  "speed (compute_speeds [demo_tp 0 (Some 0), demo_tp 2000000 (Some 10), demo_tp 2000000 (Some 30)] ! 1) = Some 5
   \<and> speed (compute_speeds [demo_tp 0 (Some 0), demo_tp 2000000 (Some 10), demo_tp 2000000 (Some 30)] ! 2) = Some 5
   \<and> speed (compute_speeds [demo_tp 0 (Some 0), demo_tp 2000000 (Some 10), demo_tp 2000000 (Some 30)] ! 0) = Some 0"
proof -
  let ?tps = "[demo_tp 0 (Some 0), demo_tp 2000000 (Some 10), demo_tp 2000000 (Some 30)]"
  have l: "0 < length ?tps" "1 < length ?tps" "2 < length ?tps" by simp_all
  from speed_derivation [OF l(1)] have s0: "speed (compute_speeds ?tps ! 0) = Some 0" by simp
  from speed_derivation [OF l(2)]
  have "speed (compute_speeds ?tps ! 1) = Some (fdiv (fsub 10 0) (total_seconds 2000000))"
    by (simp add: demo_tp_def)
  then have s1: "speed (compute_speeds ?tps ! 1) = Some 5" by (simp only: demo_quotient)
  from speed_derivation [OF l(3)]
  have "speed (compute_speeds ?tps ! 2) = speed (compute_speeds ?tps ! 1)"
    by (simp add: demo_tp_def)
  with s0 s1 show ?thesis by simp
qed

text \<open>
  Claim C3 as stated fails where a distance is missing. Of three points one second apart
  with distances 0, 10 and none, the second has speed 10, and the third gets speed 0
  instead of inheriting 10.
\<close>

theorem missing_distance_counterexample:
  "distance ([demo_tp 0 (Some 0), demo_tp 1000000 (Some 10), demo_tp 2000000 None] ! 2) = None
   \<and> speed (compute_speeds [demo_tp 0 (Some 0), demo_tp 1000000 (Some 10), demo_tp 2000000 None] ! 1) = Some 10
   \<and> speed (compute_speeds [demo_tp 0 (Some 0), demo_tp 1000000 (Some 10), demo_tp 2000000 None] ! 2) = Some 0
   \<and> speed (compute_speeds [demo_tp 0 (Some 0), demo_tp 1000000 (Some 10), demo_tp 2000000 None] ! 2)
       \<noteq> speed (compute_speeds [demo_tp 0 (Some 0), demo_tp 1000000 (Some 10), demo_tp 2000000 None] ! 1)"
proof -
  let ?tps = "[demo_tp 0 (Some 0), demo_tp 1000000 (Some 10), demo_tp 2000000 None]"
  have len: "length (compute_speeds ?tps) = 3" using compute_speeds_entries [of ?tps] by simp
  have "map speed (compute_speeds ?tps) ! 1 = Some 10" "map speed (compute_speeds ?tps) ! 2 = Some 0"
    by (simp_all only: demo_speeds) simp_all
  then have "speed (compute_speeds ?tps ! 1) = Some 10" "speed (compute_speeds ?tps ! 2) = Some 0"
    using len by simp_all
  then show ?thesis by (simp add: demo_tp_def)
qed

section \<open>Building the series\<close>











end
